theory Spec2Isabelle
  imports Main "HOL-Library.Sublist"
begin

section \<open>Strings as the parser uses them\<close>

text \<open>
  Python strings are modelled as \<^typ>\<open>string\<close>, lists of the 256 characters of
  \<^typ>\<open>char\<close>. \<open>s.startswith(p)\<close>, \<open>s[n:]\<close>
  (\<^const>\<open>drop\<close>), \<open>s[:n]\<close> (\<^const>\<open>take\<close>), \<open>s.split("\n")\<close> and
  \<open>"\n".join(xs)\<close> are total on every string.
\<close>

definition newline :: char where
  "newline = CHR 0x0A"

definition startswith :: "string \<Rightarrow> string \<Rightarrow> bool" where
  "startswith s p = (take (length p) s = p)"

text \<open>\<open>s.split("\n")\<close>: the empty string gives one empty line.\<close>

fun split_from :: "string \<Rightarrow> string \<Rightarrow> string list" where
  "split_from cur [] = [cur]"
| "split_from cur (c # cs) =
     (if c = newline then cur # split_from [] cs else split_from (cur @ [c]) cs)"

definition split_nl :: "string \<Rightarrow> string list" where
  "split_nl s = split_from [] s"

text \<open>\<open>"\n".join(xs)\<close>.\<close>

fun join_nl :: "string list \<Rightarrow> string" where
  "join_nl [] = []"
| "join_nl [l] = l"
| "join_nl (l # m # ls) = l @ newline # join_nl (m # ls)"

section \<open>The regular expressions of the parser\<close>

text \<open>\<open>\d\<close> on the characters of \<^typ>\<open>char\<close>: the ten ASCII digits.\<close>

definition is_digit :: "char \<Rightarrow> bool" where
  "is_digit c = (c \<in> set ''0123456789'')"

text \<open>\<open>(\d+)\<close>: the longest non-empty run of digits, and the rest.\<close>

definition re_digits :: "string \<Rightarrow> (string \<times> string) option" where
  "re_digits s =
     (if takeWhile is_digit s = [] then None
      else Some (takeWhile is_digit s, dropWhile is_digit s))"

text \<open>\<open>(?:,(\d+))?\<close>: the optional count; the group is \<open>None\<close> when it is absent.\<close>

definition re_opt_count :: "string \<Rightarrow> string option \<times> string" where
  "re_opt_count s =
     (case s of
        [] \<Rightarrow> (None, s)
      | c # cs \<Rightarrow>
          (if c = CHR '','' then
             (case re_digits cs of Some (d, r) \<Rightarrow> (Some d, r) | None \<Rightarrow> (None, s))
           else (None, s)))"

definition re_lit :: "string \<Rightarrow> string \<Rightarrow> string option" where
  "re_lit p s = (if startswith s p then Some (drop (length p) s) else None)"

text \<open>
  \<open>re.match(r"^@@ -(\d+)(?:,(\d+))? \+(\d+)(?:,(\d+))? @@", line)\<close>, giving the four
  groups. After a run of digits the pattern asks for a comma or a space, so giving back
  digits never helps and the greedy left-to-right reading is the only possible match.
\<close>

definition hunk_match ::
  "string \<Rightarrow> (string \<times> string option \<times> string \<times> string option) option" where
  "hunk_match line =
     (case re_lit ''@@ -'' line of None \<Rightarrow> None | Some s1 \<Rightarrow>
      (case re_digits s1 of None \<Rightarrow> None | Some (g1, s2) \<Rightarrow>
       (case re_opt_count s2 of (g2, s3) \<Rightarrow>
        (case re_lit '' +'' s3 of None \<Rightarrow> None | Some s4 \<Rightarrow>
         (case re_digits s4 of None \<Rightarrow> None | Some (g3, s5) \<Rightarrow>
          (case re_opt_count s5 of (g4, s6) \<Rightarrow>
           (case re_lit '' @@'' s6 of None \<Rightarrow> None
            | Some s7 \<Rightarrow> Some (g1, g2, g3, g4))))))))"

text \<open>
  \<open>(.+?) differ\<close> from a given position: the shortest non-empty run of characters other
  than a newline that is followed by \<open>" differ"\<close>.
\<close>

fun lazy_until :: "string \<Rightarrow> string \<Rightarrow> string \<Rightarrow> string option" where
  "lazy_until suf acc [] = None"
| "lazy_until suf acc (c # cs) =
     (if acc \<noteq> [] \<and> startswith (c # cs) suf then Some acc
      else if c = newline then None
      else lazy_until suf (acc @ [c]) cs)"

text \<open>\<open>re.search(r"and b/(.+?) differ", line)\<close>, giving group 1 of the leftmost match.\<close>

fun binary_name :: "string \<Rightarrow> string option" where
  "binary_name [] = None"
| "binary_name (c # cs) =
     (if startswith (c # cs) ''and b/'' then
        (case lazy_until '' differ'' [] (drop 6 (c # cs)) of
           Some g \<Rightarrow> Some g
         | None \<Rightarrow> binary_name cs)
      else binary_name cs)"

section \<open>Integers from digit strings\<close>

text \<open>
  \<open>int(s)\<close> on a string of decimal digits. Python integers are unbounded, but the
  conversion from a string is guarded: CPython raises \<open>ValueError\<close> when the string has
  more digits than \<open>sys.get_int_max_str_digits()\<close> (4300 unless configured otherwise;
  0 switches the guard off; the guard never applies to 640 digits or fewer). The limit is
  the parameter \<open>max_str_digits\<close> of the model.
\<close>

datatype error = ValueError

definition digit_value :: "char \<Rightarrow> int" where
  "digit_value c = int (of_char c) - 48"

definition digits_value :: "string \<Rightarrow> int" where
  "digits_value ds = foldl (\<lambda>a c. 10 * a + digit_value c) 0 ds"

definition py_int :: "nat \<Rightarrow> string \<Rightarrow> error + int" where
  "py_int max_str_digits ds =
     (if 640 < length ds \<and> 0 < max_str_digits \<and> max_str_digits < length ds
      then Inl ValueError
      else Inr (digits_value ds))"

text \<open>\<open>int(g or 1)\<close> for an optional group.\<close>

definition py_int_or_1 :: "nat \<Rightarrow> string option \<Rightarrow> error + int" where
  "py_int_or_1 max_str_digits g =
     (case g of
        None \<Rightarrow> Inr 1
      | Some ds \<Rightarrow> (if ds = [] then Inr 1 else py_int max_str_digits ds))"

section \<open>Data model\<close>

record Line =
  number :: int
  content :: string
  type :: string

record Hunk =
  old_start :: int
  old_count :: int
  new_start :: int
  new_count :: int
  lines :: "Line list"

record FileDiff =
  filename :: string
  old_filename :: "string option"
  status :: string
  hunks :: "Hunk list"
  is_binary :: bool

record DiffResult =
  files :: "FileDiff list"

definition added_lines :: "FileDiff \<Rightarrow> Line list" where
  "added_lines f = concat (map (\<lambda>h. filter (\<lambda>l. type l = ''add'') (lines h)) (hunks f))"

definition deleted_lines :: "FileDiff \<Rightarrow> Line list" where
  "deleted_lines f = concat (map (\<lambda>h. filter (\<lambda>l. type l = ''delete'') (lines h)) (hunks f))"

section \<open>The parser\<close>

text \<open>
  \<open>parse_diff\<close> keeps references to the file and the hunk it is filling and mutates
  them in place. Every \<open>FileDiff\<close> is appended to \<open>result.files\<close> when it is made and
  every \<open>Hunk\<close> to the \<open>hunks\<close> of its file, and both lists only grow, so a reference
  is a position: \<open>current_file\<close> is an index into \<open>result.files\<close>, \<open>current_hunk\<close> a
  pair of a file index and a hunk index.
\<close>

record pstate =
  result :: DiffResult
  current_file :: "nat option"
  current_hunk :: "(nat \<times> nat) option"
  new_line_num :: int
  pending_status :: "string option"

definition init_state :: pstate where
  "init_state =
     \<lparr>result = \<lparr>files = []\<rparr>, current_file = None, current_hunk = None,
      new_line_num = 0, pending_status = None\<rparr>"

text \<open>\<open>current_file = FileDiff(...); result.files.append(current_file)\<close>.\<close>

definition append_file :: "FileDiff \<Rightarrow> pstate \<Rightarrow> pstate" where
  "append_file fd st =
     st\<lparr>result := \<lparr>files = files (result st) @ [fd]\<rparr>,
        current_file := Some (length (files (result st)))\<rparr>"

text \<open>
  \<open>current_file.hunks.append(current_hunk); new_line_num = current_hunk.new_start\<close>
  for the file at index \<open>i\<close>.
\<close>

definition append_hunk :: "nat \<Rightarrow> Hunk \<Rightarrow> pstate \<Rightarrow> pstate" where
  "append_hunk i h st =
     (let fs = files (result st); f = fs ! i in
      st\<lparr>result := \<lparr>files = fs[i := f\<lparr>hunks := hunks f @ [h]\<rparr>]\<rparr>,
         current_hunk := Some (i, length (hunks f)),
         new_line_num := new_start h\<rparr>)"

text \<open>\<open>current_hunk.lines.append(l)\<close> for the hunk at position \<open>(i, j)\<close>.\<close>

definition append_line :: "nat \<times> nat \<Rightarrow> Line \<Rightarrow> pstate \<Rightarrow> pstate" where
  "append_line p l st =
     (let fs = files (result st); f = fs ! fst p; h = hunks f ! snd p in
      st\<lparr>result :=
           \<lparr>files = fs[fst p := f\<lparr>hunks := (hunks f)[snd p := h\<lparr>lines := lines h @ [l]\<rparr>]\<rparr>]\<rparr>\<rparr>)"

text \<open>The last block of the loop body: a content line of the open hunk.\<close>

definition content_line :: "string \<Rightarrow> pstate \<Rightarrow> pstate" where
  "content_line line st =
     (case current_hunk st of
        None \<Rightarrow> st
      | Some p \<Rightarrow>
          (if startswith line ''+'' then
             (append_line p \<lparr>number = new_line_num st, content = drop 1 line, type = ''add''\<rparr> st)
               \<lparr>new_line_num := new_line_num st + 1\<rparr>
           else if startswith line ''-'' then
             append_line p \<lparr>number = new_line_num st, content = drop 1 line, type = ''delete''\<rparr> st
           else if startswith line '' '' then
             (append_line p \<lparr>number = new_line_num st, content = drop 1 line, type = ''context''\<rparr> st)
               \<lparr>new_line_num := new_line_num st + 1\<rparr>
           else st))"

text \<open>
  The hunk-header block: when the pattern matches and a file is open, the four numbers
  are converted in the order of the constructor call and the hunk is appended;
  otherwise the line falls through to the content block.
\<close>

definition hunk_or_content :: "nat \<Rightarrow> string \<Rightarrow> pstate \<Rightarrow> error + pstate" where
  "hunk_or_content max_str_digits line st =
     (case hunk_match line of
        None \<Rightarrow> Inr (content_line line st)
      | Some (g1, g2, g3, g4) \<Rightarrow>
          (case current_file st of
             None \<Rightarrow> Inr (content_line line st)
           | Some i \<Rightarrow>
               (case py_int max_str_digits g1 of Inl e \<Rightarrow> Inl e | Inr os \<Rightarrow>
                (case py_int_or_1 max_str_digits g2 of Inl e \<Rightarrow> Inl e | Inr oc \<Rightarrow>
                 (case py_int max_str_digits g3 of Inl e \<Rightarrow> Inl e | Inr ns \<Rightarrow>
                  (case py_int_or_1 max_str_digits g4 of Inl e \<Rightarrow> Inl e | Inr nc \<Rightarrow>
                     Inr (append_hunk i
                            \<lparr>old_start = os, old_count = oc, new_start = ns,
                             new_count = nc, lines = []\<rparr> st)))))))"

definition BINARY_MARKER :: string where
  "BINARY_MARKER = ''Binary files''"

text \<open>\<open>pending_status or "modified"\<close>.\<close>

definition status_or_modified :: "string option \<Rightarrow> string" where
  "status_or_modified ps =
     (case ps of None \<Rightarrow> ''modified'' | Some s \<Rightarrow> (if s = [] then ''modified'' else s))"

text \<open>One iteration of the loop over the lines, in the order of the source's tests.\<close>

definition step :: "nat \<Rightarrow> string \<Rightarrow> pstate \<Rightarrow> error + pstate" where
  "step max_str_digits line st =
     (if startswith line ''diff --git'' then
        Inr (st\<lparr>current_file := None, current_hunk := None, pending_status := None\<rparr>)
      else if startswith line ''new file'' then
        Inr (st\<lparr>pending_status := Some ''added''\<rparr>)
      else if startswith line ''deleted file'' then
        Inr (st\<lparr>pending_status := Some ''deleted''\<rparr>)
      else if startswith line BINARY_MARKER then
        (case binary_name line of
           Some name \<Rightarrow>
             Inr (append_file
                    \<lparr>filename = name, old_filename = None, status = ''binary'',
                     hunks = [], is_binary = True\<rparr> st)
         | None \<Rightarrow> Inr st)
      else if startswith line ''--- '' then
        (if pending_status st = Some ''deleted'' \<and> startswith (drop 4 line) ''a/'' then
           Inr (append_file
                  \<lparr>filename = drop 2 (drop 4 line), old_filename = None,
                   status = ''deleted'', hunks = [], is_binary = False\<rparr> st)
         else Inr st)
      else if startswith line ''+++ '' then
        (if drop 4 line = ''/dev/null'' then Inr st
         else
           Inr (append_file
                  \<lparr>filename =
                     (if startswith (drop 4 line) ''b/'' then drop 2 (drop 4 line)
                      else drop 4 line),
                   old_filename = None,
                   status = status_or_modified (pending_status st),
                   hunks = [], is_binary = False\<rparr> st))
      else if startswith line ''index '' then Inr st
      else hunk_or_content max_str_digits line st)"

fun parse_lines :: "nat \<Rightarrow> string list \<Rightarrow> pstate \<Rightarrow> error + pstate" where
  "parse_lines max_str_digits [] st = Inr st"
| "parse_lines max_str_digits (l # ls) st =
     (case step max_str_digits l st of
        Inl e \<Rightarrow> Inl e
      | Inr st' \<Rightarrow> parse_lines max_str_digits ls st')"

text \<open>The whole loop, from the initial values of the local variables.\<close>

definition parse_result :: "nat \<Rightarrow> string list \<Rightarrow> error + DiffResult" where
  "parse_result max_str_digits ls =
     (case parse_lines max_str_digits ls init_state of
        Inl e \<Rightarrow> Inl e
      | Inr st \<Rightarrow> Inr (result st))"

definition parse_diff :: "nat \<Rightarrow> string \<Rightarrow> error + DiffResult" where
  "parse_diff max_str_digits diff_text = parse_result max_str_digits (split_nl diff_text)"

section \<open>The reviewable files\<close>

text \<open>
  The skip patterns are kept as the source writes them. They use ordinary characters,
  an escaped punctuation character, \<open>.\<close> and \<open>$\<close>, and \<open>re.search\<close> is modelled for
  that part of the syntax: \<open>$\<close> matches at the end of the string and before a newline
  that ends the string, \<open>.\<close> matches any character but a newline.
\<close>

definition backslash :: char where
  "backslash = CHR 0x5C"

definition SKIP_PATTERNS :: "string list" where
  "SKIP_PATTERNS =
     [''package-lock'' @ backslash # ''.json$'',
      ''yarn'' @ backslash # ''.lock$'',
      ''pnpm-lock'' @ backslash # ''.yaml$'',
      ''poetry'' @ backslash # ''.lock$'',
      ''Pipfile'' @ backslash # ''.lock$'',
      ''go'' @ backslash # ''.sum$'',
      backslash # ''.min'' @ backslash # ''.js$'',
      backslash # ''.min'' @ backslash # ''.css$'',
      backslash # ''.map$'',
      backslash # ''.svg$'',
      backslash # ''.ico$'']"

datatype tok = Lit char | AnyChar | EndAnchor

definition tok_of :: "char \<Rightarrow> tok" where
  "tok_of c = (if c = CHR ''$'' then EndAnchor else if c = CHR ''.'' then AnyChar else Lit c)"

fun compile_pattern :: "string \<Rightarrow> tok list" where
  "compile_pattern [] = []"
| "compile_pattern [c] = [tok_of c]"
| "compile_pattern (c # d # cs) =
     (if c = backslash then Lit d # compile_pattern cs
      else tok_of c # compile_pattern (d # cs))"

fun match_here :: "tok list \<Rightarrow> string \<Rightarrow> bool" where
  "match_here [] s = True"
| "match_here (Lit c # ts) [] = False"
| "match_here (Lit c # ts) (d # ds) = (c = d \<and> match_here ts ds)"
| "match_here (AnyChar # ts) [] = False"
| "match_here (AnyChar # ts) (d # ds) = (d \<noteq> newline \<and> match_here ts ds)"
| "match_here (EndAnchor # ts) s = ((s = [] \<or> s = [newline]) \<and> match_here ts s)"

fun re_search :: "tok list \<Rightarrow> string \<Rightarrow> bool" where
  "re_search ts [] = match_here ts []"
| "re_search ts (c # cs) = (match_here ts (c # cs) \<or> re_search ts cs)"

definition should_skip :: "string \<Rightarrow> bool" where
  "should_skip fname = list_ex (\<lambda>p. re_search (compile_pattern p) fname) SKIP_PATTERNS"

definition reviewable_files :: "DiffResult \<Rightarrow> FileDiff list" where
  "reviewable_files r =
     filter (\<lambda>f. \<not> is_binary f \<and> \<not> should_skip (filename f)) (files r)"

section \<open>The prompt formatter\<close>

text \<open>\<open>str(n)\<close> for an integer, as the f-string of the hunk header renders it.\<close>

definition digit_char :: "nat \<Rightarrow> char" where
  "digit_char n = ''0123456789'' ! n"

function show_nat :: "nat \<Rightarrow> string" where
  "show_nat n = (if n < 10 then [digit_char n] else show_nat (n div 10) @ [digit_char (n mod 10)])"
  by pat_completeness auto
termination
  by (relation "measure id") auto

declare show_nat.simps [simp del]

definition py_str :: "int \<Rightarrow> string" where
  "py_str i = (if i < 0 then CHR ''-'' # show_nat (nat (- i)) else show_nat (nat i))"

definition hunk_header :: "Hunk \<Rightarrow> string" where
  "hunk_header h =
     ''@@ -'' @ py_str (old_start h) @ '','' @ py_str (old_count h) @ '' +'' @
     py_str (new_start h) @ '','' @ py_str (new_count h) @ '' @@''"

definition format_line :: "Line \<Rightarrow> string" where
  "format_line l =
     (if type l = ''add'' then CHR ''+'' # content l
      else if type l = ''delete'' then CHR ''-'' # content l
      else CHR '' '' # content l)"

text \<open>The two loops of \<open>format_diff\<close>, appending to the list \<open>lines\<close> of the source.\<close>

fun format_hunk_lines :: "Line list \<Rightarrow> string list \<Rightarrow> string list" where
  "format_hunk_lines [] out = out"
| "format_hunk_lines (l # ls) out = format_hunk_lines ls (out @ [format_line l])"

fun format_hunks :: "Hunk list \<Rightarrow> string list \<Rightarrow> string list" where
  "format_hunks [] out = out"
| "format_hunks (h # hs) out =
     format_hunks hs (format_hunk_lines (lines h) (out @ [hunk_header h]))"

definition format_diff :: "FileDiff \<Rightarrow> string" where
  "format_diff file_diff = join_nl (format_hunks (hunks file_diff) [])"

section \<open>The query builder\<close>

text \<open>
  \<open>s.strip()\<close> removes the white space of \<open>str.isspace\<close> from both ends; on the
  characters of \<^typ>\<open>char\<close> these are the codes below.
\<close>

definition is_space :: "char \<Rightarrow> bool" where
  "is_space c = (of_char c \<in> {9, 10, 11, 12, 13, 28, 29, 30, 31, 32, 133, 160 :: nat})"

definition py_strip :: "string \<Rightarrow> string" where
  "py_strip s = rev (dropWhile is_space (rev (dropWhile is_space s)))"

definition build_search_query :: "FileDiff \<Rightarrow> string" where
  "build_search_query file_diff =
     (let added = map content (filter (\<lambda>l. py_strip (content l) \<noteq> []) (added_lines file_diff));
          added' =
            (if added = [] then
               map content (filter (\<lambda>l. py_strip (content l) \<noteq> []) (deleted_lines file_diff))
             else added)
      in take 500 (join_nl added'))"

section \<open>Sample inputs\<close>

text \<open>One file with one hunk: a context line, two deleted lines and an added line.\<close>

definition sample_text :: string where
  "sample_text =
     join_nl [''diff --git a/a.py b/a.py'', ''index 1a2b..3c4d 100644'', ''--- a/a.py'',
              ''+++ b/a.py'', ''@@ -1,3 +5,2 @@ def f():'', '' x'', ''-y'', ''-w'', ''+z'']"

definition sample_hunk :: Hunk where
  "sample_hunk =
     \<lparr>old_start = 1, old_count = 3, new_start = 5, new_count = 2,
      lines = [\<lparr>number = 5, content = ''x'', type = ''context''\<rparr>,
               \<lparr>number = 6, content = ''y'', type = ''delete''\<rparr>,
               \<lparr>number = 6, content = ''w'', type = ''delete''\<rparr>,
               \<lparr>number = 6, content = ''z'', type = ''add''\<rparr>]\<rparr>"

definition sample_file :: FileDiff where
  "sample_file =
     \<lparr>filename = ''a.py'', old_filename = None, status = ''modified'',
      hunks = [sample_hunk], is_binary = False\<rparr>"

definition sample_result :: DiffResult where
  "sample_result = \<lparr>files = [sample_file]\<rparr>"

text \<open>The state of the loop after the last line of \<open>sample_text\<close>.\<close>

definition sample_state :: pstate where
  "sample_state =
     \<lparr>result = sample_result, current_file = Some 0, current_hunk = Some (0, 0),
      new_line_num = 7, pending_status = None\<rparr>"

text \<open>A lock file with a hunk, a binary file and a source file.\<close>

definition lock_file :: FileDiff where
  "lock_file =
     \<lparr>filename = ''package-lock.json'', old_filename = None, status = ''modified'',
      hunks = [sample_hunk], is_binary = False\<rparr>"

definition image_file :: FileDiff where
  "image_file =
     \<lparr>filename = ''image.png'', old_filename = None, status = ''binary'',
      hunks = [], is_binary = True\<rparr>"

definition mixed_result :: DiffResult where
  "mixed_result = \<lparr>files = [lock_file, image_file, sample_file]\<rparr>"

text \<open>A file whose only added line is blank, next to a deleted line.\<close>

definition blank_add_file :: FileDiff where
  "blank_add_file =
     \<lparr>filename = ''b.py'', old_filename = None, status = ''modified'',
      hunks = [\<lparr>old_start = 1, old_count = 1, new_start = 1, new_count = 1,
                lines = [\<lparr>number = 1, content = ''old'', type = ''delete''\<rparr>,
                         \<lparr>number = 1, content = ''  '', type = ''add''\<rparr>]\<rparr>],
      is_binary = False\<rparr>"

text \<open>A binary-files marker followed by a hunk header and an added line.\<close>

definition binary_hunk_text :: string where
  "binary_hunk_text =
     join_nl [''diff --git a/x.png b/x.png'', ''Binary files a/x.png and b/x.png differ'',
              ''@@ -1 +1 @@'', ''+y'']"

text \<open>A binary file as git prints it, followed by a modified file.\<close>

definition binary_text :: string where
  "binary_text =
     join_nl [''diff --git a/x.png b/x.png'', ''index 1a2b..3c4d 100644'',
              ''Binary files a/x.png and b/x.png differ'',
              ''diff --git a/a.py b/a.py'', ''--- a/a.py'', ''+++ b/a.py'',
              ''@@ -1 +1 @@'', ''+y'']"

definition binary_result :: DiffResult where
  "binary_result =
     \<lparr>files =
        [\<lparr>filename = ''x.png'', old_filename = None, status = ''binary'',
          hunks = [], is_binary = True\<rparr>,
         \<lparr>filename = ''a.py'', old_filename = None, status = ''modified'',
          hunks = [\<lparr>old_start = 1, old_count = 1, new_start = 1, new_count = 1,
                    lines = [\<lparr>number = 1, content = ''y'', type = ''add''\<rparr>]\<rparr>],
          is_binary = False\<rparr>]\<rparr>"

text \<open>A second new-path line inside the hunk of the first file.\<close>

definition stale_hunk_lines :: "string list" where
  "stale_hunk_lines =
     [''diff --git a/a.py b/a.py'', ''--- a/a.py'', ''+++ b/a.py'', ''@@ -1 +1,2 @@'', ''+x'',
      ''+++ b/b.py'']"

text \<open>A file with two hunks, the lines before the second header, and the state there.\<close>

definition two_hunk_pre :: "string list" where
  "two_hunk_pre =
     [''diff --git a/a.py b/a.py'', ''--- a/a.py'', ''+++ b/a.py'', ''@@ -1 +1,2 @@'', ''+x'']"

definition two_hunk_text :: string where
  "two_hunk_text = join_nl (two_hunk_pre @ [''@@ -9 +10 @@'', ''+q'', '' r''])"

definition two_hunk_state :: pstate where
  "two_hunk_state =
     \<lparr>result =
        \<lparr>files =
           [\<lparr>filename = ''a.py'', old_filename = None, status = ''modified'',
             hunks = [\<lparr>old_start = 1, old_count = 1, new_start = 1, new_count = 2,
                       lines = [\<lparr>number = 1, content = ''x'', type = ''add''\<rparr>]\<rparr>],
             is_binary = False\<rparr>]\<rparr>,
      current_file = Some 0, current_hunk = Some (0, 0), new_line_num = 2,
      pending_status = None\<rparr>"

definition two_hunk_result :: DiffResult where
  "two_hunk_result =
     \<lparr>files =
        [\<lparr>filename = ''a.py'', old_filename = None, status = ''modified'',
          hunks = [\<lparr>old_start = 1, old_count = 1, new_start = 1, new_count = 2,
                    lines = [\<lparr>number = 1, content = ''x'', type = ''add''\<rparr>]\<rparr>,
                   \<lparr>old_start = 9, old_count = 1, new_start = 10, new_count = 1,
                    lines = [\<lparr>number = 10, content = ''q'', type = ''add''\<rparr>,
                             \<lparr>number = 11, content = ''r'', type = ''context''\<rparr>]\<rparr>],
          is_binary = False\<rparr>]\<rparr>"

text \<open>A pure rename, alone and after the lines of \<open>sample_text\<close>.\<close>

definition rename_section :: "string list" where
  "rename_section =
     [''diff --git a/old.py b/new.py'', ''similarity index 100%'', ''rename from old.py'',
      ''rename to new.py'']"

definition rename_text :: string where
  "rename_text = join_nl rename_section"

text \<open>The text ends with a newline, so its last line is empty.\<close>

definition after_rename_text :: string where
  "after_rename_text = join_nl (split_nl sample_text @ rename_section @ [[]])"

text \<open>
  A deleted file as git prints it, after a modified file and before a new one; an empty
  line follows each hunk, and the text ends with a newline.
\<close>

definition deletion_post :: "string list" where
  "deletion_post =
     [''diff --git a/n.py b/n.py'', ''new file mode 100644'', ''--- /dev/null'',
      ''+++ b/n.py'', ''@@ -0,0 +1 @@'', ''+pass'', []]"

definition deletion_text :: string where
  "deletion_text =
     join_nl (split_nl sample_text @
              ''diff --git a/config.json b/config.json'' # [] @
              ''deleted file mode 100644'' # [''index 5e6f..0000000''] @
              [''--- a/config.json'', ''+++ /dev/null'', ''@@ -1,2 +0,0 @@''] @
              [''-{'', ''-}'', []] @
              deletion_post)"

definition deletion_result :: DiffResult where
  "deletion_result =
     \<lparr>files =
        [sample_file,
         \<lparr>filename = ''config.json'', old_filename = None, status = ''deleted'',
          hunks = [\<lparr>old_start = 1, old_count = 2, new_start = 0, new_count = 0,
                    lines = [\<lparr>number = 0, content = ''{'', type = ''delete''\<rparr>,
                             \<lparr>number = 0, content = ''}'', type = ''delete''\<rparr>]\<rparr>],
          is_binary = False\<rparr>,
         \<lparr>filename = ''n.py'', old_filename = None, status = ''added'',
          hunks = [\<lparr>old_start = 0, old_count = 0, new_start = 1, new_count = 1,
                    lines = [\<lparr>number = 1, content = ''pass'', type = ''add''\<rparr>]\<rparr>],
          is_binary = False\<rparr>]\<rparr>"

text \<open>The same deletion without the deleted-file marker, and one that deletes a line
  whose text begins with two dashes and a space.\<close>

definition unmarked_deletion_text :: string where
  "unmarked_deletion_text =
     join_nl [''diff --git a/config.json b/config.json'', ''--- a/config.json'',
              ''+++ /dev/null'', ''@@ -1,2 +0,0 @@'', ''-{'', ''-}'']"

definition dashed_deletion_text :: string where
  "dashed_deletion_text =
     join_nl [''diff --git a/config.json b/config.json'', ''deleted file mode 100644'',
              ''--- a/config.json'', ''+++ /dev/null'', ''@@ -1,2 +0,0 @@'', ''-{'',
              ''--- note'']"

section \<open>Notions used in the proofs\<close>

abbreviation fls :: "pstate \<Rightarrow> FileDiff list" where
  "fls st \<equiv> files (result st)"

definition valid_hunk :: "FileDiff list \<Rightarrow> nat \<times> nat \<Rightarrow> bool" where
  "valid_hunk fs p = (fst p < length fs \<and> snd p < length (hunks (fs ! fst p)))"

definition hunk_at :: "FileDiff list \<Rightarrow> nat \<times> nat \<Rightarrow> Hunk" where
  "hunk_at fs p = hunks (fs ! fst p) ! snd p"

definition add_hunk_at :: "nat \<Rightarrow> Hunk \<Rightarrow> FileDiff list \<Rightarrow> FileDiff list" where
  "add_hunk_at i h fs = fs[i := (fs ! i)\<lparr>hunks := hunks (fs ! i) @ [h]\<rparr>]"

definition add_line_at :: "nat \<times> nat \<Rightarrow> Line \<Rightarrow> FileDiff list \<Rightarrow> FileDiff list" where
  "add_line_at p l fs =
     fs[fst p := (fs ! fst p)\<lparr>hunks := (hunks (fs ! fst p))
        [snd p := (hunk_at fs p)\<lparr>lines := lines (hunk_at fs p) @ [l]\<rparr>]\<rparr>]"

definition is_new :: "Line \<Rightarrow> bool" where
  "is_new l = (type l = ''add'' \<or> type l = ''context'')"

definition wf :: "pstate \<Rightarrow> bool" where
  "wf st =
     ((case current_file st of None \<Rightarrow> True | Some i \<Rightarrow> i < length (fls st)) \<and>
      (case current_hunk st of
         None \<Rightarrow> True
       | Some p \<Rightarrow> valid_hunk (fls st) p \<and> current_file st \<noteq> None))"

definition counter :: "Hunk \<Rightarrow> int" where
  "counter h = new_start h + int (length (filter is_new (lines h)))"

definition numbered :: "Hunk \<Rightarrow> bool" where
  "numbered h =
     (\<forall>k<length (lines h).
        number (lines h ! k) = new_start h + int (length (filter is_new (take k (lines h)))))"

definition num_inv :: "pstate \<Rightarrow> bool" where
  "num_inv st =
     ((\<forall>p. valid_hunk (fls st) p \<longrightarrow> numbered (hunk_at (fls st) p)) \<and>
      (\<forall>p. current_hunk st = Some p \<longrightarrow> new_line_num st = counter (hunk_at (fls st) p)))"

definition line_kinds :: "string set" where
  "line_kinds = {''add'', ''delete'', ''context''}"

definition orig_inv :: "string list \<Rightarrow> pstate \<Rightarrow> bool" where
  "orig_inv pre st =
     (\<forall>p. valid_hunk (fls st) p \<longrightarrow>
        subseq (map format_line (lines (hunk_at (fls st) p))) pre \<and>
        (\<forall>l\<in>set (lines (hunk_at (fls st) p)). type l \<in> line_kinds))"

definition rendered :: "Hunk list \<Rightarrow> string list" where
  "rendered hs = concat (map (\<lambda>h. hunk_header h # map format_line (lines h)) hs)"

text \<open>
  No line matching the hunk-header pattern stands between a binary-files marker line and
  the next \<open>diff --git\<close> line; the flag says whether such a marker has been seen since
  the last \<open>diff --git\<close> line.
\<close>

fun no_hunk_after_binary :: "bool \<Rightarrow> string list \<Rightarrow> bool" where
  "no_hunk_after_binary b [] = True"
| "no_hunk_after_binary b (l # ls) =
     (if startswith l ''diff --git'' then no_hunk_after_binary False ls
      else if startswith l BINARY_MARKER then no_hunk_after_binary True ls
      else (b \<longrightarrow> hunk_match l = None) \<and> no_hunk_after_binary b ls)"

definition bin_inv :: "bool \<Rightarrow> pstate \<Rightarrow> bool" where
  "bin_inv b st =
     ((\<forall>i<length (fls st). is_binary (fls st ! i) \<longrightarrow> hunks (fls st ! i) = []) \<and>
      (\<forall>i. current_file st = Some i \<longrightarrow> is_binary (fls st ! i) \<longrightarrow> b))"

text \<open>
  Two states of the loop that differ only by files standing in front of the list of the
  second one (and by the counter while no hunk is open).
\<close>

definition shifted :: "FileDiff list \<Rightarrow> pstate \<Rightarrow> pstate \<Rightarrow> bool" where
  "shifted base st st' =
     (fls st' = base @ fls st \<and>
      current_file st' = map_option (\<lambda>i. length base + i) (current_file st) \<and>
      current_hunk st' = map_option (\<lambda>p. (length base + fst p, snd p)) (current_hunk st) \<and>
      pending_status st' = pending_status st \<and>
      (current_hunk st \<noteq> None \<longrightarrow> new_line_num st' = new_line_num st))"

definition add_lines_at :: "nat \<times> nat \<Rightarrow> Line list \<Rightarrow> FileDiff list \<Rightarrow> FileDiff list" where
  "add_lines_at p ls fs =
     fs[fst p := (fs ! fst p)\<lparr>hunks := (hunks (fs ! fst p))
        [snd p := (hunk_at fs p)\<lparr>lines := lines (hunk_at fs p) @ ls\<rparr>]\<rparr>]"

text \<open>
  A line that is none of the lines at which the loop resets its state, notes a status or
  makes a \<open>FileDiff\<close>: not a \<open>diff --git\<close> line, a status marker, a binary-files
  marker, an old-path or a new-path line. The lines of a pure rename after its
  \<open>diff --git\<close> line are of this kind, and so is the empty line.
\<close>

definition makes_no_file :: "string \<Rightarrow> bool" where
  "makes_no_file l =
     (\<not> startswith l ''diff --git'' \<and> \<not> startswith l ''new file'' \<and>
      \<not> startswith l ''deleted file'' \<and> \<not> startswith l BINARY_MARKER \<and>
      \<not> startswith l ''--- '' \<and> \<not> startswith l ''+++ '')"

text \<open>
  A line the loop passes over in every state: it makes no file, it does not match the
  hunk-header pattern and it is not a content line. Index lines, empty lines and the
  no-newline marker are of this kind.
\<close>

definition ignored_line :: "string \<Rightarrow> bool" where
  "ignored_line l =
     (makes_no_file l \<and> hunk_match l = None \<and>
      \<not> startswith l ''+'' \<and> \<not> startswith l ''-'' \<and> \<not> startswith l '' '')"

section \<open>The store: files, hunks and lines by position\<close>

lemma fls_append_file [simp]: "fls (append_file fd st) = fls st @ [fd]"
  by (simp add: append_file_def)

lemma fls_append_hunk [simp]: "fls (append_hunk i h st) = add_hunk_at i h (fls st)"
  by (simp add: append_hunk_def add_hunk_at_def Let_def)

lemma fls_append_line [simp]: "fls (append_line p l st) = add_line_at p l (fls st)"
  by (simp add: append_line_def add_line_at_def hunk_at_def Let_def)

lemma append_file_fields [simp]:
  "current_file (append_file fd st) = Some (length (fls st))"
  "current_hunk (append_file fd st) = current_hunk st"
  "new_line_num (append_file fd st) = new_line_num st"
  "pending_status (append_file fd st) = pending_status st"
  by (simp_all add: append_file_def)

lemma append_hunk_fields [simp]:
  "current_file (append_hunk i h st) = current_file st"
  "current_hunk (append_hunk i h st) = Some (i, length (hunks (fls st ! i)))"
  "new_line_num (append_hunk i h st) = new_start h"
  "pending_status (append_hunk i h st) = pending_status st"
  by (simp_all add: append_hunk_def Let_def)

lemma append_line_fields [simp]:
  "current_file (append_line p l st) = current_file st"
  "current_hunk (append_line p l st) = current_hunk st"
  "new_line_num (append_line p l st) = new_line_num st"
  "pending_status (append_line p l st) = pending_status st"
  by (simp_all add: append_line_def Let_def)

lemma valid_add_file:
  "valid_hunk (fs @ [fd]) p \<longleftrightarrow>
     valid_hunk fs p \<or> (fst p = length fs \<and> snd p < length (hunks fd))"
  by (auto simp: valid_hunk_def nth_append)

lemma hunk_at_add_file: "valid_hunk fs p \<Longrightarrow> hunk_at (fs @ [fd]) p = hunk_at fs p"
  by (simp add: valid_hunk_def hunk_at_def nth_append)

lemma length_add_hunk_at [simp]: "length (add_hunk_at i h fs) = length fs"
  by (simp add: add_hunk_at_def)

lemma length_add_line_at [simp]: "length (add_line_at p l fs) = length fs"
  by (simp add: add_line_at_def)

lemma valid_add_hunk:
  "i < length fs \<Longrightarrow>
   valid_hunk (add_hunk_at i h fs) p \<longleftrightarrow> valid_hunk fs p \<or> p = (i, length (hunks (fs ! i)))"
  by (cases p) (auto simp: valid_hunk_def add_hunk_at_def nth_list_update)

lemma hunk_at_add_hunk_old:
  "valid_hunk fs p \<Longrightarrow> hunk_at (add_hunk_at i h fs) p = hunk_at fs p"
  by (cases "fst p = i") (simp_all add: valid_hunk_def hunk_at_def add_hunk_at_def nth_append)

lemma hunk_at_add_hunk_new:
  "i < length fs \<Longrightarrow> hunk_at (add_hunk_at i h fs) (i, length (hunks (fs ! i))) = h"
  by (simp add: hunk_at_def add_hunk_at_def)

lemma valid_add_line [simp]: "valid_hunk (add_line_at q l fs) p \<longleftrightarrow> valid_hunk fs p"
  by (cases "fst p = fst q") (auto simp: valid_hunk_def add_line_at_def)

lemma hunk_at_add_line:
  "valid_hunk fs q \<Longrightarrow> valid_hunk fs p \<Longrightarrow>
   hunk_at (add_line_at q l fs) p =
     (if p = q then (hunk_at fs q)\<lparr>lines := lines (hunk_at fs q) @ [l]\<rparr> else hunk_at fs p)"
  by (cases p; cases q) (auto simp: valid_hunk_def hunk_at_def add_line_at_def nth_list_update)

lemma all_hunks_iff:
  "(\<forall>f\<in>set fs. \<forall>h\<in>set (hunks f). P h) \<longleftrightarrow> (\<forall>p. valid_hunk fs p \<longrightarrow> P (hunk_at fs p))"
proof
  assume a: "\<forall>f\<in>set fs. \<forall>h\<in>set (hunks f). P h"
  show "\<forall>p. valid_hunk fs p \<longrightarrow> P (hunk_at fs p)"
    using a by (auto simp: valid_hunk_def hunk_at_def intro: nth_mem)
next
  assume a: "\<forall>p. valid_hunk fs p \<longrightarrow> P (hunk_at fs p)"
  show "\<forall>f\<in>set fs. \<forall>h\<in>set (hunks f). P h"
  proof (intro ballI)
    fix f h assume "f \<in> set fs" "h \<in> set (hunks f)"
    then obtain i j where "i < length fs" "fs ! i = f" "j < length (hunks f)" "hunks f ! j = h"
      by (auto simp: in_set_conv_nth)
    then show "P h" using a [rule_format, of "(i, j)"]
      by (simp add: valid_hunk_def hunk_at_def)
  qed
qed


section \<open>What one line does to the state\<close>

lemma startswith_char: "startswith s [c] \<Longrightarrow> c # drop 1 s = s"
  by (cases s) (simp_all add: startswith_def)

lemma content_line_cases [consumes 1, case_names same line]:
  assumes "content_line ln st = st'"
  obtains
    (same) "st' = st"
  | (line) p l where "current_hunk st = Some p" "format_line l = ln"
      "number l = new_line_num st" "content l = drop 1 ln"
      "type l \<in> {''add'', ''delete'', ''context''}"
      "type l = ''delete'' \<longleftrightarrow> startswith ln ''-''"
      "fls st' = add_line_at p l (fls st)" "current_hunk st' = Some p"
      "current_file st' = current_file st"
      "new_line_num st' = new_line_num st + (if is_new l then 1 else 0)"
      "pending_status st' = pending_status st"
proof (cases "current_hunk st")
  case None
  then show ?thesis using assms same by (simp add: content_line_def)
next
  case (Some p)
  consider (a) "startswith ln ''+''"
    | (d) "\<not> startswith ln ''+''" "startswith ln ''-''"
    | (c) "\<not> startswith ln ''+''" "\<not> startswith ln ''-''" "startswith ln '' ''"
    | (n) "\<not> startswith ln ''+''" "\<not> startswith ln ''-''" "\<not> startswith ln '' ''"
    by blast
  then show ?thesis
  proof cases
    case a
    then have "\<not> startswith ln ''-''" by (cases ln) (auto simp: startswith_def)
    with a show ?thesis
      using assms Some startswith_char [of ln "CHR ''+''"]
      by (intro line [of p "\<lparr>number = new_line_num st, content = drop 1 ln, type = ''add''\<rparr>"])
         (auto simp: content_line_def format_line_def is_new_def)
  next
    case d
    then show ?thesis
      using assms Some startswith_char [of ln "CHR ''-''"]
      by (intro line [of p "\<lparr>number = new_line_num st, content = drop 1 ln, type = ''delete''\<rparr>"])
         (auto simp: content_line_def format_line_def is_new_def)
  next
    case c
    then show ?thesis
      using assms Some startswith_char [of ln "CHR '' ''"]
      by (intro line [of p "\<lparr>number = new_line_num st, content = drop 1 ln, type = ''context''\<rparr>"])
         (auto simp: content_line_def format_line_def is_new_def)
  next
    case n
    then show ?thesis using assms Some same by (simp add: content_line_def)
  qed
qed

lemma step_cases [consumes 1, case_names ctrl mkfile mkhunk mkline]:
  assumes "step lim ln st = Inr st'"
  obtains
    (ctrl) "fls st' = fls st" "new_line_num st' = new_line_num st"
      "current_hunk st' = current_hunk st \<and> current_file st' = current_file st
       \<or> current_hunk st' = None \<and> current_file st' = None \<and> startswith ln ''diff --git''"
  | (mkfile) fd where "hunks fd = []" "st' = append_file fd st"
      "is_binary fd \<longrightarrow> startswith ln BINARY_MARKER"
  | (mkhunk) i h where "current_file st = Some i" "lines h = []" "st' = append_hunk i h st"
      "hunk_match ln \<noteq> None"
  | (mkline) p l where "current_hunk st = Some p" "format_line l = ln"
      "number l = new_line_num st" "content l = drop 1 ln"
      "type l \<in> {''add'', ''delete'', ''context''}"
      "type l = ''delete'' \<longleftrightarrow> startswith ln ''-''"
      "fls st' = add_line_at p l (fls st)" "current_hunk st' = Some p"
      "current_file st' = current_file st"
      "new_line_num st' = new_line_num st + (if is_new l then 1 else 0)"
      "pending_status st' = pending_status st"
proof -
  have content: thesis if "content_line ln st = st'"
    using that
  proof (cases rule: content_line_cases)
    case same
    then show ?thesis using ctrl by simp
  next
    case (line p l)
    then show ?thesis using mkline [of p l] by simp
  qed
  consider (git) "startswith ln ''diff --git''"
    | (st) "\<not> startswith ln ''diff --git''"
        "startswith ln ''new file'' \<or> startswith ln ''deleted file''"
    | (bin) "\<not> startswith ln ''diff --git''" "\<not> startswith ln ''new file''"
        "\<not> startswith ln ''deleted file''" "startswith ln BINARY_MARKER"
    | (old) "\<not> startswith ln ''diff --git''" "\<not> startswith ln ''new file''"
        "\<not> startswith ln ''deleted file''" "\<not> startswith ln BINARY_MARKER"
        "startswith ln ''--- ''"
    | (new) "\<not> startswith ln ''diff --git''" "\<not> startswith ln ''new file''"
        "\<not> startswith ln ''deleted file''" "\<not> startswith ln BINARY_MARKER"
        "\<not> startswith ln ''--- ''" "startswith ln ''+++ ''"
    | (idx) "\<not> startswith ln ''diff --git''" "\<not> startswith ln ''new file''"
        "\<not> startswith ln ''deleted file''" "\<not> startswith ln BINARY_MARKER"
        "\<not> startswith ln ''--- ''" "\<not> startswith ln ''+++ ''" "startswith ln ''index ''"
    | (rest) "\<not> startswith ln ''diff --git''" "\<not> startswith ln ''new file''"
        "\<not> startswith ln ''deleted file''" "\<not> startswith ln BINARY_MARKER"
        "\<not> startswith ln ''--- ''" "\<not> startswith ln ''+++ ''" "\<not> startswith ln ''index ''"
    by blast
  then show ?thesis
  proof cases
    case git
    then show ?thesis using assms ctrl by (auto simp: step_def)
  next
    case st
    then show ?thesis using assms ctrl by (auto simp: step_def split: if_splits)
  next
    case bin
    then show ?thesis
      using assms ctrl
        mkfile [of "\<lparr>filename = the (binary_name ln), old_filename = None, status = ''binary'',
                     hunks = [], is_binary = True\<rparr>"]
      by (auto simp: step_def split: option.splits)
  next
    case old
    then show ?thesis
      using assms ctrl
        mkfile [of "\<lparr>filename = drop 2 (drop 4 ln), old_filename = None,
                     status = ''deleted'', hunks = [], is_binary = False\<rparr>"]
      by (auto simp: step_def split: if_splits)
  next
    case new
    then show ?thesis
      using assms ctrl
        mkfile [of "\<lparr>filename =
                     (if startswith (drop 4 ln) ''b/'' then drop 2 (drop 4 ln) else drop 4 ln),
                   old_filename = None,
                   status = status_or_modified (pending_status st),
                   hunks = [], is_binary = False\<rparr>"]
      by (auto simp: step_def split: if_splits)
  next
    case idx
    then show ?thesis using assms ctrl by (auto simp: step_def)
  next
    case rest
    then have hc: "hunk_or_content lim ln st = Inr st'" using assms by (simp add: step_def)
    show ?thesis
    proof (cases "hunk_match ln")
      case None
      then show ?thesis using hc content by (simp add: hunk_or_content_def)
    next
      case (Some g)
      show ?thesis
      proof (cases "current_file st")
        case None
        then show ?thesis using hc Some content
          by (simp add: hunk_or_content_def split: prod.splits)
      next
        case (Some i)
        obtain g1 g2 g3 g4 where g: "g = (g1, g2, g3, g4)" by (cases g) auto
        from hc \<open>hunk_match ln = Some g\<close> Some g
        have "\<exists>h. st' = append_hunk i h st \<and> lines h = []"
          apply (clarsimp simp: hunk_or_content_def split: sum.splits)
          apply (rule exI, rule conjI, rule refl, simp)
          done
        then obtain h where "lines h = []" "st' = append_hunk i h st" by blast
        then show ?thesis using mkhunk [of i h] Some \<open>hunk_match ln = Some g\<close> by simp
      qed
    qed
  qed
qed


section \<open>Line numbers inside a hunk\<close>

lemma wf_init: "wf init_state"
  by (simp add: wf_def init_state_def)

lemma wf_step:
  assumes "step lim ln st = Inr st'" "wf st"
  shows "wf st'"
  using assms
proof (cases rule: step_cases)
  case ctrl
  then show ?thesis using assms(2) by (auto simp: wf_def split: option.splits)
next
  case (mkfile fd)
  then show ?thesis using assms(2)
    by (auto simp: wf_def valid_add_file split: option.splits)
next
  case (mkhunk i h)
  then show ?thesis using assms(2)
    by (auto simp: wf_def valid_add_hunk split: option.splits)
next
  case (mkline p l)
  then show ?thesis using assms(2) by (auto simp: wf_def split: option.splits)
qed

lemma parse_lines_append:
  "parse_lines lim (xs @ ys) st =
     (case parse_lines lim xs st of Inl e \<Rightarrow> Inl e | Inr st' \<Rightarrow> parse_lines lim ys st')"
  by (induction xs arbitrary: st) (auto split: sum.splits)

lemma wf_parse_lines: "parse_lines lim ls st = Inr st' \<Longrightarrow> wf st \<Longrightarrow> wf st'"
  by (induction ls arbitrary: st) (auto split: sum.splits dest: wf_step)

lemma numbered_snoc:
  assumes "numbered h" "number l = counter h"
  shows "numbered (h\<lparr>lines := lines h @ [l]\<rparr>)"
  unfolding numbered_def
proof (intro allI impI)
  fix k assume "k < length (lines (h\<lparr>lines := lines h @ [l]\<rparr>))"
  then consider "k < length (lines h)" | "k = length (lines h)" by fastforce
  then show "number (lines (h\<lparr>lines := lines h @ [l]\<rparr>) ! k) =
      new_start (h\<lparr>lines := lines h @ [l]\<rparr>) +
      int (length (filter is_new (take k (lines (h\<lparr>lines := lines h @ [l]\<rparr>)))))"
  proof cases
    case 1
    then show ?thesis using assms(1) by (simp add: numbered_def nth_append)
  next
    case 2
    then show ?thesis using assms(2) by (simp add: counter_def)
  qed
qed

lemma counter_snoc:
  "counter (h\<lparr>lines := lines h @ [l]\<rparr>) = counter h + (if is_new l then 1 else 0)"
  by (simp add: counter_def)

lemma num_inv_init: "num_inv init_state"
  by (simp add: num_inv_def init_state_def valid_hunk_def)

lemma num_inv_step:
  assumes "step lim ln st = Inr st'" "wf st" "num_inv st"
  shows "num_inv st'"
  using assms(1)
proof (cases rule: step_cases)
  case ctrl
  then show ?thesis using assms(3) by (auto simp: num_inv_def)
next
  case (mkfile fd)
  then show ?thesis using assms(2,3)
    by (auto simp: num_inv_def wf_def valid_add_file hunk_at_add_file split: option.splits)
next
  case (mkhunk i h)
  then have i: "i < length (fls st)" using assms(2) by (simp add: wf_def)
  have "numbered h" "counter h = new_start h"
    using mkhunk by (simp_all add: numbered_def counter_def)
  then show ?thesis using assms(3) mkhunk i
    by (auto simp: num_inv_def valid_add_hunk hunk_at_add_hunk_old hunk_at_add_hunk_new)
next
  case (mkline p l)
  then have p: "valid_hunk (fls st) p" using assms(2) by (simp add: wf_def)
  have n: "number l = counter (hunk_at (fls st) p)"
    using mkline(1,3) assms(3) unfolding num_inv_def by simp
  show ?thesis
    unfolding num_inv_def
  proof (intro conjI allI impI)
    fix q assume "valid_hunk (fls st') q"
    then have q: "valid_hunk (fls st) q" using mkline by simp
    have nq: "numbered (hunk_at (fls st) q)" "numbered (hunk_at (fls st) p)"
      using assms(3) q p unfolding num_inv_def by blast+
    show "numbered (hunk_at (fls st') q)"
      using q p nq n mkline(7) by (simp add: hunk_at_add_line numbered_snoc)
  next
    fix q assume "current_hunk st' = Some q"
    then have "q = p" using mkline by simp
    then show "new_line_num st' = counter (hunk_at (fls st') q)"
      using p mkline n by (simp add: hunk_at_add_line counter_snoc)
  qed
qed

lemma num_inv_parse_lines:
  "parse_lines lim ls st = Inr st' \<Longrightarrow> wf st \<Longrightarrow> num_inv st \<Longrightarrow> num_inv st'"
proof (induction ls arbitrary: st)
  case Nil
  then show ?case by simp
next
  case (Cons l ls)
  then show ?case
    by (auto split: sum.splits dest: wf_step num_inv_step)
qed

lemma parse_diff_state:
  assumes "parse_diff lim text = Inr r"
  obtains st where "parse_lines lim (split_nl text) init_state = Inr st" "result st = r"
  using assms by (auto simp: parse_diff_def parse_result_def split: sum.splits)

lemma numbered_consecutive:
  assumes "\<forall>k<length ls. number (ls ! k) = s + int (length (filter is_new (take k ls)))"
  shows "map number (filter is_new ls) = map (\<lambda>k. s + int k) [0..<length (filter is_new ls)]"
  using assms
proof (induction ls rule: rev_induct)
  case Nil
  then show ?case by simp
next
  case (snoc x xs)
  have "\<forall>k<length xs. number (xs ! k) = s + int (length (filter is_new (take k xs)))"
  proof (intro allI impI)
    fix k assume "k < length xs"
    then show "number (xs ! k) = s + int (length (filter is_new (take k xs)))"
      using snoc.prems [rule_format, of k] by (simp add: nth_append)
  qed
  then have ih: "map number (filter is_new xs) = map (\<lambda>k. s + int k) [0..<length (filter is_new xs)]"
    by (rule snoc.IH)
  have last: "number x = s + int (length (filter is_new xs))"
    using snoc.prems [rule_format, of "length xs"] by simp
  show ?case using ih last by simp
qed

lemma sample_parse: "parse_diff 4300 sample_text = Inr sample_result"
  by code_simp

lemma sample_members:
  "sample_file \<in> set (files sample_result)" "sample_hunk \<in> set (hunks sample_file)"
  by (simp_all add: sample_result_def sample_file_def)

text \<open>
  Claim C1. In every hunk of the result of \<open>parse_diff\<close>, the numbers of the lines of
  kind add and context are \<open>new_start\<close>, \<open>new_start + 1\<close>, \<open>new_start + 2\<close>, ...:
  consecutive, strictly increasing, and starting at the hunk's \<open>new_start\<close>.
\<close>

theorem hunk_numbers_consecutive:
  assumes "parse_diff max_str_digits diff_text = Inr r"
    and "f \<in> set (files r)" and "h \<in> set (hunks f)"
  shows "map number (filter (\<lambda>l. type l = ''add'' \<or> type l = ''context'') (lines h)) =
         map (\<lambda>k. new_start h + int k)
           [0..<length (filter (\<lambda>l. type l = ''add'' \<or> type l = ''context'') (lines h))]"
proof -
  from assms(1) obtain st where
    st: "parse_lines max_str_digits (split_nl diff_text) init_state = Inr st" "result st = r"
    by (rule parse_diff_state)
  have "num_inv st"
    using st(1) wf_init num_inv_init by (rule num_inv_parse_lines)
  then have "\<forall>f\<in>set (fls st). \<forall>h\<in>set (hunks f). numbered h"
    by (simp add: all_hunks_iff num_inv_def)
  then have "numbered h" using assms(2,3) st(2) by blast
  then have "map number (filter is_new (lines h)) =
      map (\<lambda>k. new_start h + int k) [0..<length (filter is_new (lines h))]"
    unfolding numbered_def by (rule numbered_consecutive)
  moreover have "is_new = (\<lambda>l. type l = ''add'' \<or> type l = ''context'')"
    by (auto simp: is_new_def)
  ultimately show ?thesis by simp
qed


theorem hunk_numbers_consecutive_witness:
  "parse_diff 4300 sample_text = Inr sample_result \<and>
   sample_file \<in> set (files sample_result) \<and> sample_hunk \<in> set (hunks sample_file) \<and>
   map number (filter (\<lambda>l. type l = ''add'' \<or> type l = ''context'') (lines sample_hunk)) =
   map (\<lambda>k. new_start sample_hunk + int k)
     [0..<length (filter (\<lambda>l. type l = ''add'' \<or> type l = ''context'') (lines sample_hunk))]"
  using sample_parse sample_members
    hunk_numbers_consecutive [OF sample_parse sample_members]
  by simp

lemma startswith_first: "startswith s (c # p) \<Longrightarrow> startswith s (d # q) \<Longrightarrow> c = d"
  by (cases s) (auto simp: startswith_def)

lemma minus_line_step:
  assumes "startswith ln ''-''" "\<not> startswith ln ''--- ''" "current_hunk st = Some p"
  shows "step lim ln st =
         Inr (append_line p \<lparr>number = new_line_num st, content = drop 1 ln, type = ''delete''\<rparr> st)"
proof -
  have no: "\<not> startswith ln ''diff --git''" "\<not> startswith ln ''new file''"
    "\<not> startswith ln ''deleted file''" "\<not> startswith ln BINARY_MARKER"
    "\<not> startswith ln ''+++ ''" "\<not> startswith ln ''index ''" "\<not> startswith ln ''@@ -''"
    "\<not> startswith ln ''+''"
    using assms(1) by (auto simp: BINARY_MARKER_def dest: startswith_first)
  then have "hunk_match ln = None" by (simp add: hunk_match_def re_lit_def)
  then show ?thesis using no assms
    by (simp add: step_def hunk_or_content_def content_line_def)
qed

lemma numbered_of_result:
  assumes "parse_diff lim text = Inr r" "f \<in> set (files r)" "h \<in> set (hunks f)"
  shows "numbered h"
proof -
  from assms(1) obtain st where
    st: "parse_lines lim (split_nl text) init_state = Inr st" "result st = r"
    by (rule parse_diff_state)
  have "num_inv st"
    using st(1) wf_init num_inv_init by (rule num_inv_parse_lines)
  then have "\<forall>f\<in>set (fls st). \<forall>h\<in>set (hunks f). numbered h"
    by (simp add: all_hunks_iff num_inv_def)
  then show ?thesis using assms(2,3) st(2) by blast
qed

lemma sample_state_reached:
  "parse_lines 4300 (split_nl sample_text) init_state = Inr sample_state"
  by code_simp

lemma filter_take_deletes:
  assumes "k \<le> m" "m \<le> length ls" "\<forall>j. k \<le> j \<and> j < m \<longrightarrow> \<not> P (ls ! j)"
  shows "filter P (take m ls) = filter P (take k ls)"
  using assms
proof (induction m rule: dec_induct)
  case base
  then show ?case by simp
next
  case (step n)
  then have "filter P (take n ls) = filter P (take k ls)" by simp
  moreover have "\<not> P (ls ! n)" using step by simp
  moreover have "take (Suc n) ls = take n ls @ [ls ! n]"
    using step.prems(1) by (simp add: take_Suc_conv_app_nth)
  ultimately show ?case by simp
qed

text \<open>
  Claim C2. A line of kind delete carries the value the counter has when it is appended,
  that is \<open>new_start\<close> plus the number of add and context lines before it in the hunk.
  The counter does not move over deleted lines: every line of the hunk that comes after
  it with only deleted lines in between carries the same number, so consecutive deleted
  lines share a number and the next add or context line receives it too. In the loop, a
  \<open>-\<close> line appends the delete line with the counter as its number and leaves the
  counter as it was.
\<close>

theorem delete_line_number:
  "(parse_diff max_str_digits diff_text = Inr r \<and> f \<in> set (files r) \<and> h \<in> set (hunks f) \<and>
    k < length (lines h) \<and> type (lines h ! k) = ''delete'' \<longrightarrow>
      number (lines h ! k) =
        new_start h +
        int (length (filter (\<lambda>l. type l = ''add'' \<or> type l = ''context'') (take k (lines h)))) \<and>
      (\<forall>m. k \<le> m \<and> m < length (lines h) \<and>
           (\<forall>j. k \<le> j \<and> j < m \<longrightarrow> type (lines h ! j) = ''delete'') \<longrightarrow>
           number (lines h ! m) = number (lines h ! k))) \<and>
   (startswith ln ''-'' \<and> \<not> startswith ln ''--- '' \<and> current_hunk st = Some p \<longrightarrow>
      step max_str_digits ln st =
        Inr (append_line p
               \<lparr>number = new_line_num st, content = drop 1 ln, type = ''delete''\<rparr> st) \<and>
      new_line_num
        (append_line p \<lparr>number = new_line_num st, content = drop 1 ln, type = ''delete''\<rparr> st) =
        new_line_num st)"
proof (intro conjI impI allI; (elim conjE)?)
  assume a: "parse_diff max_str_digits diff_text = Inr r" "f \<in> set (files r)"
    "h \<in> set (hunks f)" "k < length (lines h)" "type (lines h ! k) = ''delete''"
  have new: "is_new = (\<lambda>l. type l = ''add'' \<or> type l = ''context'')"
    by (auto simp: is_new_def)
  have n: "numbered h" using a(1-3) by (rule numbered_of_result)
  show k: "number (lines h ! k) =
        new_start h +
        int (length (filter (\<lambda>l. type l = ''add'' \<or> type l = ''context'') (take k (lines h))))"
    using n a(4) by (simp add: numbered_def new)
  fix m
  assume m: "k \<le> m" "m < length (lines h)"
    and d: "\<forall>j. k \<le> j \<and> j < m \<longrightarrow> type (lines h ! j) = ''delete''"
  have "\<forall>j. k \<le> j \<and> j < m \<longrightarrow> \<not> is_new (lines h ! j)"
    using d by (simp add: is_new_def)
  then have "filter is_new (take m (lines h)) = filter is_new (take k (lines h))"
    using m by (intro filter_take_deletes) simp_all
  moreover have "number (lines h ! m) =
      new_start h + int (length (filter is_new (take m (lines h))))"
    using n m(2) unfolding numbered_def by blast
  ultimately show "number (lines h ! m) = number (lines h ! k)"
    using k by (simp add: new)
next
  assume "startswith ln ''-''" "\<not> startswith ln ''--- ''" "current_hunk st = Some p"
  then show "step max_str_digits ln st =
        Inr (append_line p
               \<lparr>number = new_line_num st, content = drop 1 ln, type = ''delete''\<rparr> st)"
    by (rule minus_line_step)
next
  show "new_line_num
        (append_line p \<lparr>number = new_line_num st, content = drop 1 ln, type = ''delete''\<rparr> st) =
        new_line_num st"
    by simp
qed

theorem delete_line_number_witness:
  "(parse_diff 4300 sample_text = Inr sample_result \<and>
    sample_file \<in> set (files sample_result) \<and> sample_hunk \<in> set (hunks sample_file) \<and>
    1 < length (lines sample_hunk) \<and> type (lines sample_hunk ! 1) = ''delete'') \<and>
   number (lines sample_hunk ! 1) = 6 \<and>
   number (lines sample_hunk ! 2) = number (lines sample_hunk ! 1) \<and>
   number (lines sample_hunk ! 3) = number (lines sample_hunk ! 1) \<and>
   (startswith ''-v'' ''-'' \<and> \<not> startswith ''-v'' ''--- '' \<and>
    current_hunk sample_state = Some (0, 0)) \<and>
   step 4300 ''-v'' sample_state =
     Inr (append_line (0, 0) \<lparr>number = 7, content = ''v'', type = ''delete''\<rparr> sample_state)"
proof -
  have h: "parse_diff 4300 sample_text = Inr sample_result \<and>
    sample_file \<in> set (files sample_result) \<and> sample_hunk \<in> set (hunks sample_file) \<and>
    1 < length (lines sample_hunk) \<and> type (lines sample_hunk ! 1) = ''delete''"
    using sample_parse sample_members by (simp add: sample_hunk_def)
  have g: "startswith ''-v'' ''-'' \<and> \<not> startswith ''-v'' ''--- '' \<and>
    current_hunk sample_state = Some (0, 0)"
    by (simp add: startswith_def sample_state_def)
  note t = delete_line_number [of 4300 sample_text sample_result sample_file sample_hunk 1
      "''-v''" sample_state "(0, 0)"]
  from t h have n: "number (lines sample_hunk ! 1) = 6"
    by (simp add: sample_hunk_def)
  from t g have s: "step 4300 ''-v'' sample_state =
     Inr (append_line (0, 0) \<lparr>number = 7, content = ''v'', type = ''delete''\<rparr> sample_state)"
    by (simp add: sample_state_def)
  have e: "number (lines sample_hunk ! 2) = number (lines sample_hunk ! 1)"
    "number (lines sample_hunk ! 3) = number (lines sample_hunk ! 1)"
    by (simp_all add: sample_hunk_def)
  show ?thesis using h n e g s by blast
qed

section \<open>Formatting gives the input lines back\<close>

lemma split_from_no_newline:
  "newline \<notin> set cur \<Longrightarrow> l \<in> set (split_from cur s) \<Longrightarrow> newline \<notin> set l"
proof (induction s arbitrary: cur)
  case Nil
  then show ?case by simp
next
  case (Cons c s)
  show ?case
  proof (cases "c = newline")
    case True
    then show ?thesis using Cons.prems Cons.IH [of "[]"] by auto
  next
    case False
    then show ?thesis using Cons.prems Cons.IH [of "cur @ [c]"] by auto
  qed
qed

lemma split_nl_no_newline: "l \<in> set (split_nl s) \<Longrightarrow> newline \<notin> set l"
  using split_from_no_newline [of "[]" l s] by (simp add: split_nl_def)

lemma split_from_append:
  "newline \<notin> set l \<Longrightarrow> split_from cur (l @ rest) = split_from (cur @ l) rest"
  by (induction l arbitrary: cur) auto

lemma split_from_join:
  "ls \<noteq> [] \<Longrightarrow> \<forall>l\<in>set ls. newline \<notin> set l \<Longrightarrow>
   split_from cur (join_nl ls) = (cur @ hd ls) # tl ls"
proof (induction ls arbitrary: cur rule: join_nl.induct)
  case 1
  then show ?case by simp
next
  case (2 l)
  then show ?case using split_from_append [of l cur "[]"] by simp
next
  case (3 l m ls)
  have "split_from cur (l @ newline # join_nl (m # ls)) =
        split_from (cur @ l) (newline # join_nl (m # ls))"
    using 3(2,3) by (simp add: split_from_append)
  also have "\<dots> = (cur @ l) # split_from [] (join_nl (m # ls))" by simp
  also have "\<dots> = (cur @ l) # m # ls" using 3 by simp
  finally show ?case by simp
qed

lemma split_join:
  "ls \<noteq> [] \<Longrightarrow> \<forall>l\<in>set ls. newline \<notin> set l \<Longrightarrow> split_nl (join_nl ls) = ls"
  by (simp add: split_nl_def split_from_join)

lemma format_hunk_lines_eq: "format_hunk_lines ls out = out @ map format_line ls"
  by (induction ls arbitrary: out) auto

lemma format_hunks_eq: "format_hunks hs out = out @ rendered hs"
  by (induction hs arbitrary: out) (auto simp: rendered_def format_hunk_lines_eq)

lemma digit_char_digit: "n < 10 \<Longrightarrow> digit_char n \<in> set ''0123456789''"
  unfolding digit_char_def by (rule nth_mem) simp

lemma show_nat_digits: "set (show_nat n) \<subseteq> set ''0123456789''"
proof (induction n rule: show_nat.induct)
  case (1 n)
  show ?case
  proof (cases "n < 10")
    case True
    then show ?thesis using digit_char_digit [of n] by (subst show_nat.simps) simp
  next
    case False
    then show ?thesis
      using 1 digit_char_digit [of "n mod 10"] by (subst show_nat.simps) simp
  qed
qed

lemma py_str_no_newline: "newline \<notin> set (py_str i)"
  using show_nat_digits [of "nat i"] show_nat_digits [of "nat (- i)"]
  by (auto simp: py_str_def newline_def)

lemma hunk_header_no_newline: "newline \<notin> set (hunk_header h)"
  by (simp add: hunk_header_def py_str_no_newline) (simp add: newline_def)

lemma orig_inv_init: "orig_inv [] init_state"
  by (simp add: orig_inv_def init_state_def valid_hunk_def)

lemma subseq_snoc: "subseq xs ys \<Longrightarrow> subseq xs (ys @ [y])"
  by (metis list_emb_append_mono subseq_order.order_refl append_Nil2 list_emb_Nil)

lemma subseq_snoc_both: "subseq xs ys \<Longrightarrow> subseq (xs @ [y]) (ys @ [y])"
  by (simp add: list_emb_append_mono)

lemma orig_inv_step:
  assumes "step lim ln st = Inr st'" "wf st" "orig_inv pre st"
  shows "orig_inv (pre @ [ln]) st'"
  using assms(1)
proof (cases rule: step_cases)
  case ctrl
  then show ?thesis using assms(3) by (auto simp: orig_inv_def intro: subseq_snoc)
next
  case (mkfile fd)
  then show ?thesis using assms(3)
    by (auto simp: orig_inv_def valid_add_file hunk_at_add_file intro: subseq_snoc)
next
  case (mkhunk i h)
  then have i: "i < length (fls st)" using assms(2) by (simp add: wf_def)
  show ?thesis using assms(3) mkhunk i
    by (auto simp: orig_inv_def valid_add_hunk hunk_at_add_hunk_old hunk_at_add_hunk_new
        intro: subseq_snoc)
next
  case (mkline p l)
  then have p: "valid_hunk (fls st) p" using assms(2) by (simp add: wf_def)
  show ?thesis
    unfolding orig_inv_def
  proof (intro allI impI)
    fix q assume "valid_hunk (fls st') q"
    then have q: "valid_hunk (fls st) q" using mkline by simp
    have old: "subseq (map format_line (lines (hunk_at (fls st) q))) pre"
      "\<forall>l\<in>set (lines (hunk_at (fls st) q)). type l \<in> line_kinds"
      using assms(3) q unfolding orig_inv_def by blast+
    show "subseq (map format_line (lines (hunk_at (fls st') q))) (pre @ [ln]) \<and>
          (\<forall>l\<in>set (lines (hunk_at (fls st') q)). type l \<in> line_kinds)"
      using old p q mkline(2,5,7)
      by (auto simp: hunk_at_add_line line_kinds_def intro: subseq_snoc subseq_snoc_both)
  qed
qed

lemma orig_inv_parse_lines:
  "parse_lines lim ls st = Inr st' \<Longrightarrow> wf st \<Longrightarrow> orig_inv pre st \<Longrightarrow> orig_inv (pre @ ls) st'"
proof (induction ls arbitrary: st pre)
  case Nil
  then show ?case by simp
next
  case (Cons l ls)
  from Cons.prems(1) obtain st1 where
    s: "step lim l st = Inr st1" "parse_lines lim ls st1 = Inr st'"
    by (auto split: sum.splits)
  have "orig_inv ((pre @ [l]) @ ls) st'"
    using s(2) wf_step [OF s(1) Cons.prems(2)] orig_inv_step [OF s(1) Cons.prems(2,3)]
    by (rule Cons.IH)
  then show ?case by simp
qed

lemma content_line_inverse:
  "content_line ln st = st \<or>
   (\<exists>p l. current_hunk st = Some p \<and> type l \<in> {''add'', ''delete'', ''context''} \<and>
          result (content_line ln st) = result (append_line p l st) \<and> format_line l = ln)"
proof -
  obtain st' where st': "content_line ln st = st'" by simp
  then show ?thesis
  proof (cases rule: content_line_cases)
    case same
    then show ?thesis using st' by simp
  next
    case (line p l)
    then have "result st' = result (append_line p l st)"
      by (simp add: DiffResult.equality)
    then show ?thesis using line st' by blast
  qed
qed

lemma rendered_no_newline:
  assumes "\<forall>h\<in>set hs. \<forall>l\<in>set (lines h). newline \<notin> set (format_line l)"
  shows "\<forall>x\<in>set (rendered hs). newline \<notin> set x"
  using assms by (auto simp: rendered_def hunk_header_no_newline)

lemma orig_of_result:
  assumes "parse_diff lim text = Inr r" "f \<in> set (files r)" "h \<in> set (hunks f)"
  shows "subseq (map format_line (lines h)) (split_nl text)"
    and "\<forall>l\<in>set (lines h). type l \<in> line_kinds"
proof -
  from assms(1) obtain st where
    st: "parse_lines lim (split_nl text) init_state = Inr st" "result st = r"
    by (rule parse_diff_state)
  have "orig_inv ([] @ split_nl text) st"
    using st(1) wf_init orig_inv_init by (rule orig_inv_parse_lines)
  then have "\<forall>f\<in>set (fls st). \<forall>h\<in>set (hunks f).
      subseq (map format_line (lines h)) (split_nl text) \<and>
      (\<forall>l\<in>set (lines h). type l \<in> line_kinds)"
    by (simp add: all_hunks_iff orig_inv_def)
  then show "subseq (map format_line (lines h)) (split_nl text)"
    and "\<forall>l\<in>set (lines h). type l \<in> line_kinds"
    using assms(2,3) st(2) by blast+
qed

text \<open>
  Claim C9. Formatting inverts the classification of hunk content. In the loop, the
  \<open>Line\<close> that the content block records for an input line is formatted back to that
  very line. In the result of \<open>parse_diff\<close> every line of every hunk has kind add,
  delete or context, is formatted as \<open>+\<close>, \<open>-\<close> or a space followed by its stored
  content, and the formatted lines of a hunk are lines of the input, in the order of the
  input. The text \<open>format_diff\<close> returns for a file with hunks consists of exactly
  these lines, each hunk's after its header.
\<close>

theorem format_diff_inverse:
  "(content_line ln st = st \<or>
    (\<exists>p l. current_hunk st = Some p \<and> type l \<in> {''add'', ''delete'', ''context''} \<and>
           result (content_line ln st) = result (append_line p l st) \<and> format_line l = ln)) \<and>
   (parse_diff max_str_digits diff_text = Inr r \<and> f \<in> set (files r) \<longrightarrow>
      (\<forall>h\<in>set (hunks f).
         subseq (map format_line (lines h)) (split_nl diff_text) \<and>
         (\<forall>l\<in>set (lines h).
            type l = ''add'' \<and> format_line l = CHR ''+'' # content l \<or>
            type l = ''delete'' \<and> format_line l = CHR ''-'' # content l \<or>
            type l = ''context'' \<and> format_line l = CHR '' '' # content l)) \<and>
      (hunks f \<noteq> [] \<longrightarrow>
         split_nl (format_diff f) =
           concat (map (\<lambda>h. hunk_header h # map format_line (lines h)) (hunks f))))"
proof (intro conjI impI ballI; (elim conjE)?)
  show "content_line ln st = st \<or>
    (\<exists>p l. current_hunk st = Some p \<and> type l \<in> {''add'', ''delete'', ''context''} \<and>
           result (content_line ln st) = result (append_line p l st) \<and> format_line l = ln)"
    by (rule content_line_inverse)
next
  fix h
  assume a: "parse_diff max_str_digits diff_text = Inr r" "f \<in> set (files r)" "h \<in> set (hunks f)"
  then show "subseq (map format_line (lines h)) (split_nl diff_text)"
    by (rule orig_of_result(1))
  fix l assume "l \<in> set (lines h)"
  then have "type l \<in> line_kinds" using orig_of_result(2) [OF a] by blast
  then show "type l = ''add'' \<and> format_line l = CHR ''+'' # content l \<or>
            type l = ''delete'' \<and> format_line l = CHR ''-'' # content l \<or>
            type l = ''context'' \<and> format_line l = CHR '' '' # content l"
    by (auto simp: line_kinds_def format_line_def)
next
  assume a: "parse_diff max_str_digits diff_text = Inr r" "f \<in> set (files r)"
    and ne: "hunks f \<noteq> []"
  have "\<forall>h\<in>set (hunks f). \<forall>l\<in>set (lines h). newline \<notin> set (format_line l)"
  proof (intro ballI)
    fix h l assume h: "h \<in> set (hunks f)" and l: "l \<in> set (lines h)"
    have "subseq (map format_line (lines h)) (split_nl diff_text)"
      using a h by (rule orig_of_result(1))
    moreover have "format_line l \<in> set (map format_line (lines h))" using l by simp
    ultimately obtain y where "y \<in> set (split_nl diff_text)" "format_line l = y"
      by (rule list_emb_set)
    then have "format_line l \<in> set (split_nl diff_text)" by simp
    then show "newline \<notin> set (format_line l)" by (rule split_nl_no_newline)
  qed
  then have "\<forall>x\<in>set (rendered (hunks f)). newline \<notin> set x"
    by (rule rendered_no_newline)
  moreover have "rendered (hunks f) \<noteq> []"
    using ne by (cases "hunks f") (simp_all add: rendered_def)
  ultimately have "split_nl (join_nl (rendered (hunks f))) = rendered (hunks f)"
    by (simp add: split_join)
  then show "split_nl (format_diff f) =
           concat (map (\<lambda>h. hunk_header h # map format_line (lines h)) (hunks f))"
    by (simp add: format_diff_def format_hunks_eq rendered_def)
qed

lemma sample_formatted:
  "split_nl (format_diff sample_file) = [''@@ -1,3 +5,2 @@'', '' x'', ''-y'', ''-w'', ''+z'']"
  by code_simp

theorem format_diff_inverse_witness:
  "parse_diff 4300 sample_text = Inr sample_result \<and> sample_file \<in> set (files sample_result) \<and>
   hunks sample_file \<noteq> [] \<and>
   [''@@ -1,3 +5,2 @@'', '' x'', ''-y'', ''-w'', ''+z''] =
     concat (map (\<lambda>h. hunk_header h # map format_line (lines h)) (hunks sample_file)) \<and>
   subseq (map format_line (lines sample_hunk)) (split_nl sample_text)"
  using sample_parse sample_members(1) sample_formatted
    format_diff_inverse [of "''+z''" sample_state 4300 sample_text sample_result sample_file]
  by (simp add: sample_file_def)

section \<open>The reviewable files\<close>

lemma re_search_append: "re_search ts s \<Longrightarrow> re_search ts (p @ s)"
  by (induction p) auto

lemma lock_pattern:
  "re_search (compile_pattern (''package-lock'' @ backslash # ''.json$'')) ''package-lock.json''"
  by code_simp

lemma should_skip_lock: "should_skip (dir @ ''package-lock.json'')"
proof -
  have "''package-lock'' @ backslash # ''.json$'' \<in> set SKIP_PATTERNS"
    by (simp add: SKIP_PATTERNS_def)
  then show ?thesis
    unfolding should_skip_def list_ex_iff
    using re_search_append [OF lock_pattern, of dir] by blast
qed

text \<open>
  Claim C5. \<open>reviewable_files\<close> is the subsequence of \<open>files\<close>, in the same order, of
  the entries that are not binary and whose filename no skip pattern matches. It holds
  no binary entry, and no file whose name is \<open>package-lock.json\<close>, in whatever
  directory and whatever its hunks.
\<close>

theorem reviewable_files_exact:
  "subseq (reviewable_files r) (files r) \<and>
   reviewable_files r =
     filter (\<lambda>f. \<not> is_binary f \<and>
                 (\<forall>p\<in>set SKIP_PATTERNS. \<not> re_search (compile_pattern p) (filename f)))
       (files r) \<and>
   (\<forall>f\<in>set (reviewable_files r). \<not> is_binary f) \<and>
   (\<forall>f\<in>set (files r). \<forall>dir.
      filename f = dir @ ''package-lock.json'' \<longrightarrow> f \<notin> set (reviewable_files r))"
proof (intro conjI)
  show "subseq (reviewable_files r) (files r)"
    by (simp add: reviewable_files_def)
  show "reviewable_files r =
     filter (\<lambda>f. \<not> is_binary f \<and>
                 (\<forall>p\<in>set SKIP_PATTERNS. \<not> re_search (compile_pattern p) (filename f)))
       (files r)"
    by (simp add: reviewable_files_def should_skip_def list_ex_iff)
  show "\<forall>f\<in>set (reviewable_files r). \<not> is_binary f"
    by (simp add: reviewable_files_def)
  show "\<forall>f\<in>set (files r). \<forall>dir.
      filename f = dir @ ''package-lock.json'' \<longrightarrow> f \<notin> set (reviewable_files r)"
    by (simp add: reviewable_files_def should_skip_lock)
qed

lemma mixed_reviewable: "reviewable_files mixed_result = [sample_file]"
  by code_simp

theorem reviewable_files_exact_witness:
  "reviewable_files mixed_result = [sample_file] \<and>
   subseq [sample_file] (files mixed_result) \<and>
   lock_file \<in> set (files mixed_result) \<and> filename lock_file = [] @ ''package-lock.json'' \<and>
   lock_file \<notin> set (reviewable_files mixed_result) \<and>
   image_file \<notin> set (reviewable_files mixed_result)"
proof -
  have "subseq (reviewable_files mixed_result) (files mixed_result)"
    using reviewable_files_exact [of mixed_result] by (rule conjunct1)
  then have s: "subseq [sample_file] (files mixed_result)"
    by (simp only: mixed_reviewable)
  have m: "lock_file \<in> set (files mixed_result)" "filename lock_file = [] @ ''package-lock.json''"
    by (simp_all add: mixed_result_def lock_file_def)
  have n: "lock_file \<notin> set (reviewable_files mixed_result)"
    "image_file \<notin> set (reviewable_files mixed_result)"
    unfolding mixed_reviewable by (simp_all add: lock_file_def image_file_def sample_file_def)
  show ?thesis using mixed_reviewable s m n by blast
qed

section \<open>The query builder\<close>

lemma py_strip_nonempty: "py_strip s \<noteq> [] \<longleftrightarrow> (\<exists>c\<in>set s. \<not> is_space c)"
proof -
  have "py_strip s = [] \<longleftrightarrow> (\<forall>c\<in>set (dropWhile is_space s). is_space c)"
    by (simp add: py_strip_def dropWhile_eq_Nil_conv)
  also have "\<dots> \<longleftrightarrow> dropWhile is_space s = []"
  proof
    assume a: "\<forall>c\<in>set (dropWhile is_space s). is_space c"
    show "dropWhile is_space s = []"
    proof (rule ccontr)
      assume n: "dropWhile is_space s \<noteq> []"
      then have "\<not> is_space (hd (dropWhile is_space s))" by (rule hd_dropWhile)
      moreover have "hd (dropWhile is_space s) \<in> set (dropWhile is_space s)"
        using n by simp
      ultimately show False using a by blast
    qed
  next
    assume e: "dropWhile is_space s = []"
    show "\<forall>c\<in>set (dropWhile is_space s). is_space c" unfolding e by simp
  qed
  also have "\<dots> \<longleftrightarrow> (\<forall>c\<in>set s. is_space c)"
    by (simp add: dropWhile_eq_Nil_conv)
  finally show ?thesis by blast
qed

text \<open>
  Claim C10, as the code has it. The query is the newline-joined content of the added
  lines that are not blank (that have a character other than white space), cut to 500
  characters; the deleted lines that are not blank are used instead exactly when no
  added line is left after the blank ones are dropped.
\<close>

theorem build_search_query_nonblank:
  "build_search_query f =
     take 500
       (join_nl
          (if filter (\<lambda>l. \<exists>c\<in>set (content l). \<not> is_space c) (added_lines f) = []
           then map content (filter (\<lambda>l. \<exists>c\<in>set (content l). \<not> is_space c) (deleted_lines f))
           else map content (filter (\<lambda>l. \<exists>c\<in>set (content l). \<not> is_space c) (added_lines f)))) \<and>
   length (build_search_query f) \<le> 500"
  by (simp add: build_search_query_def Let_def py_strip_nonempty)

lemma blank_added: "added_lines blank_add_file = [\<lparr>number = 1, content = ''  '', type = ''add''\<rparr>]"
  by code_simp

lemma blank_query: "build_search_query blank_add_file = ''old''"
  by code_simp

theorem build_search_query_nonblank_witness:
  "filter (\<lambda>l. \<exists>c\<in>set (content l). \<not> is_space c) (added_lines blank_add_file) = [] \<and>
   build_search_query blank_add_file = ''old'' \<and> length (build_search_query blank_add_file) \<le> 500"
  using build_search_query_nonblank [of blank_add_file] blank_query blank_added
  by (simp add: is_space_def)

text \<open>
  The claim as worded fails on \<open>blank_add_file\<close>: the file has an added line, yet the
  query is not the text of its added lines but the text of its deleted line.
\<close>

theorem build_search_query_counterexample:
  "added_lines blank_add_file \<noteq> [] \<and>
   take 500 (join_nl (map content (added_lines blank_add_file))) = ''  '' \<and>
   build_search_query blank_add_file = ''old''"
  using blank_added blank_query by simp

section \<open>Binary files and hunks\<close>

lemma nth_add_hunk_at:
  "k < length fs \<Longrightarrow>
   add_hunk_at i h fs ! k = (if k = i then (fs ! i)\<lparr>hunks := hunks (fs ! i) @ [h]\<rparr> else fs ! k)"
  by (simp add: add_hunk_at_def nth_list_update)

lemma nth_add_line_at:
  "k < length fs \<Longrightarrow>
   add_line_at p l fs ! k =
     (if k = fst p
      then (fs ! k)\<lparr>hunks := (hunks (fs ! k))
             [snd p := (hunk_at fs p)\<lparr>lines := lines (hunk_at fs p) @ [l]\<rparr>]\<rparr>
      else fs ! k)"
  by (simp add: add_line_at_def nth_list_update)

lemma hunk_match_prefix: "hunk_match ln \<noteq> None \<Longrightarrow> startswith ln ''@@ -''"
  by (auto simp: hunk_match_def re_lit_def split: option.splits if_splits)

lemma step_git:
  "startswith ln ''diff --git'' \<Longrightarrow>
   step lim ln st = Inr (st\<lparr>current_file := None, current_hunk := None, pending_status := None\<rparr>)"
  by (simp add: step_def)

lemma bin_inv_init: "bin_inv False init_state"
  by (simp add: bin_inv_def init_state_def)

lemma bin_inv_step:
  assumes s: "step lim ln st = Inr st'" and w: "wf st" and inv: "bin_inv b st"
    and ok: "\<not> startswith ln ''diff --git'' \<Longrightarrow> \<not> startswith ln BINARY_MARKER \<Longrightarrow>
             b \<Longrightarrow> hunk_match ln = None"
  shows "bin_inv (if startswith ln ''diff --git'' then False
                  else if startswith ln BINARY_MARKER then True else b) st'"
proof (cases "startswith ln ''diff --git''")
  case True
  then show ?thesis using s inv by (auto simp: step_git bin_inv_def)
next
  case ng: False
  define b' where "b' = (if startswith ln BINARY_MARKER then True else b)"
  have bb: "b \<Longrightarrow> b'" by (simp add: b'_def)
  have e: "\<And>i. i < length (fls st) \<Longrightarrow> is_binary (fls st ! i) \<Longrightarrow> hunks (fls st ! i) = []"
    and c: "\<And>i. current_file st = Some i \<Longrightarrow> is_binary (fls st ! i) \<Longrightarrow> b"
    using inv unfolding bin_inv_def by blast+
  have "bin_inv b' st'"
    using s
  proof (cases rule: step_cases)
    case ctrl
    then show ?thesis using e c bb ng unfolding bin_inv_def by auto
  next
    case (mkfile fd)
    have "is_binary fd \<Longrightarrow> b'" using mkfile(3) by (simp add: b'_def)
    then show ?thesis using mkfile(1,2) e c bb unfolding bin_inv_def
      by (auto simp: nth_append)
  next
    case (mkhunk i h)
    have i: "i < length (fls st)" using w mkhunk(1) by (simp add: wf_def)
    have "startswith ln ''@@ -''" using mkhunk(4) by (rule hunk_match_prefix)
    then have nb: "\<not> startswith ln BINARY_MARKER"
      by (auto simp: BINARY_MARKER_def dest: startswith_first)
    then have "\<not> b" using ok ng mkhunk(4) by blast
    then have ni: "\<not> is_binary (fls st ! i)" using c mkhunk(1) by blast
    show ?thesis
      unfolding bin_inv_def
    proof (intro conjI allI impI)
      fix k assume "k < length (fls st')" "is_binary (fls st' ! k)"
      then show "hunks (fls st' ! k) = []"
        using mkhunk(3) ni e [of k] by (auto simp: nth_add_hunk_at split: if_splits)
    next
      fix k assume "current_file st' = Some k" "is_binary (fls st' ! k)"
      then show b' using mkhunk(1,3) ni i by (auto simp: nth_add_hunk_at)
    qed
  next
    case (mkline p l)
    have p: "valid_hunk (fls st) p" using w mkline(1) by (simp add: wf_def)
    then have np: "\<not> is_binary (fls st ! fst p)"
      using e [of "fst p"] by (auto simp: valid_hunk_def)
    have same: "\<And>k. k < length (fls st) \<Longrightarrow> is_binary (fls st' ! k) = is_binary (fls st ! k)"
      using mkline(7) by (simp add: nth_add_line_at)
    show ?thesis
      unfolding bin_inv_def
    proof (intro conjI allI impI)
      fix k assume k: "k < length (fls st')" "is_binary (fls st' ! k)"
      then have "k < length (fls st)" "is_binary (fls st ! k)"
        using same mkline(7) by simp_all
      then show "hunks (fls st' ! k) = []"
        using np e [of k] mkline(7) by (auto simp: nth_add_line_at)
    next
      fix k assume k: "current_file st' = Some k" "is_binary (fls st' ! k)"
      then have ck: "current_file st = Some k" using mkline(9) by simp
      then have "k < length (fls st)" using w by (simp add: wf_def)
      then show b' using k(2) c [OF ck] bb same by simp
    qed
  qed
  then show ?thesis using ng by (simp add: b'_def)
qed

lemma bin_inv_parse_lines:
  "parse_lines lim ls st = Inr st' \<Longrightarrow> wf st \<Longrightarrow> bin_inv b st \<Longrightarrow>
   no_hunk_after_binary b ls \<Longrightarrow> \<exists>b'. bin_inv b' st'"
proof (induction ls arbitrary: st b)
  case Nil
  then show ?case by auto
next
  case (Cons l ls)
  from Cons.prems(1) obtain st1 where
    s: "step lim l st = Inr st1" "parse_lines lim ls st1 = Inr st'"
    by (auto split: sum.splits)
  define b1 where "b1 = (if startswith l ''diff --git'' then False
                  else if startswith l BINARY_MARKER then True else b)"
  have "bin_inv b1 st1"
    unfolding b1_def using s(1) Cons.prems(2,3)
  proof (rule bin_inv_step)
    assume "\<not> startswith l ''diff --git''" "\<not> startswith l BINARY_MARKER" b
    then show "hunk_match l = None" using Cons.prems(4) by simp
  qed
  moreover have "no_hunk_after_binary b1 ls"
    using Cons.prems(4) by (auto simp: b1_def split: if_splits)
  ultimately show ?case
    using Cons.IH [OF s(2) wf_step [OF s(1) Cons.prems(2)]] by blast
qed

text \<open>
  Claim C3, as the code has it. When no line matching the hunk-header pattern stands
  between a binary-files marker line and the next \<open>diff --git\<close> line, every
  \<open>FileDiff\<close> of the result whose \<open>is_binary\<close> flag is true has no hunks.
\<close>

theorem binary_files_have_no_hunks:
  assumes "parse_diff max_str_digits diff_text = Inr r"
    and "no_hunk_after_binary False (split_nl diff_text)"
    and "f \<in> set (files r)" and "is_binary f"
  shows "hunks f = []"
proof -
  from assms(1) obtain st where
    st: "parse_lines max_str_digits (split_nl diff_text) init_state = Inr st" "result st = r"
    by (rule parse_diff_state)
  obtain b' where "bin_inv b' st"
    using bin_inv_parse_lines [OF st(1) wf_init bin_inv_init assms(2)] by blast
  moreover obtain i where "i < length (fls st)" "fls st ! i = f"
    using assms(3) st(2) by (auto simp: in_set_conv_nth)
  ultimately show ?thesis using assms(4) unfolding bin_inv_def by blast
qed

lemma binary_parse: "parse_diff 4300 binary_text = Inr binary_result"
  by code_simp

lemma binary_clean: "no_hunk_after_binary False (split_nl binary_text)"
  by code_simp

theorem binary_files_have_no_hunks_witness:
  "parse_diff 4300 binary_text = Inr binary_result \<and>
   no_hunk_after_binary False (split_nl binary_text) \<and>
   hd (files binary_result) \<in> set (files binary_result) \<and>
   is_binary (hd (files binary_result)) \<and> hunks (hd (files binary_result)) = []"
proof -
  have m: "hd (files binary_result) \<in> set (files binary_result)"
    "is_binary (hd (files binary_result))"
    by (simp_all add: binary_result_def)
  show ?thesis
    using binary_parse binary_clean m
      binary_files_have_no_hunks [OF binary_parse binary_clean m]
    by blast
qed

text \<open>
  The claim as worded fails: a hunk header after a binary-files marker is appended to
  the binary file, which is still the current file.
\<close>

theorem binary_file_with_hunk_counterexample:
  "parse_diff 4300 binary_hunk_text =
     Inr \<lparr>files =
           [\<lparr>filename = ''x.png'', old_filename = None, status = ''binary'',
             hunks = [\<lparr>old_start = 1, old_count = 1, new_start = 1, new_count = 1,
                       lines = [\<lparr>number = 1, content = ''y'', type = ''add''\<rparr>]\<rparr>],
             is_binary = True\<rparr>]\<rparr>"
  by code_simp

section \<open>When a hunk is closed\<close>

lemma step_hunk_header:
  assumes "hunk_match ln \<noteq> None"
  shows "step lim ln st = hunk_or_content lim ln st"
proof -
  have "startswith ln ''@@ -''" using assms by (rule hunk_match_prefix)
  then have "\<not> startswith ln ''diff --git''" "\<not> startswith ln ''new file''"
    "\<not> startswith ln ''deleted file''" "\<not> startswith ln BINARY_MARKER"
    "\<not> startswith ln ''--- ''" "\<not> startswith ln ''+++ ''" "\<not> startswith ln ''index ''"
    by (auto simp: BINARY_MARKER_def dest: startswith_first)
  then show ?thesis by (simp add: step_def)
qed

lemma frozen_step:
  assumes "step lim ln st = Inr st'" "wf st" "valid_hunk (fls st) q" "current_hunk st \<noteq> Some q"
  shows "valid_hunk (fls st') q \<and> current_hunk st' \<noteq> Some q \<and>
         hunk_at (fls st') q = hunk_at (fls st) q"
  using assms(1)
proof (cases rule: step_cases)
  case ctrl
  then show ?thesis using assms(3,4) by auto
next
  case (mkfile fd)
  then show ?thesis using assms(3,4) by (simp add: valid_add_file hunk_at_add_file)
next
  case (mkhunk i h)
  then have "i < length (fls st)" using assms(2) by (simp add: wf_def)
  moreover have "q \<noteq> (i, length (hunks (fls st ! i)))"
    using assms(3) by (auto simp: valid_hunk_def)
  ultimately show ?thesis using mkhunk assms(3)
    by (simp add: valid_add_hunk hunk_at_add_hunk_old)
next
  case (mkline p l)
  then have "valid_hunk (fls st) p" using assms(2) by (simp add: wf_def)
  then show ?thesis using mkline assms(3,4) by (simp add: hunk_at_add_line)
qed

lemma frozen_parse_lines:
  "parse_lines lim ls st = Inr st' \<Longrightarrow> wf st \<Longrightarrow> valid_hunk (fls st) q \<Longrightarrow>
   current_hunk st \<noteq> Some q \<Longrightarrow> hunk_at (fls st') q = hunk_at (fls st) q"
proof (induction ls arbitrary: st)
  case Nil
  then show ?case by simp
next
  case (Cons l ls)
  from Cons.prems(1) obtain st1 where
    s: "step lim l st = Inr st1" "parse_lines lim ls st1 = Inr st'"
    by (auto split: sum.splits)
  have f: "valid_hunk (fls st1) q \<and> current_hunk st1 \<noteq> Some q \<and>
         hunk_at (fls st1) q = hunk_at (fls st) q"
    using s(1) Cons.prems(2-4) by (rule frozen_step)
  then have "hunk_at (fls st') q = hunk_at (fls st1) q"
    using Cons.IH [OF s(2) wf_step [OF s(1) Cons.prems(2)]] by blast
  then show ?case using f by simp
qed

lemma boundary_closes:
  assumes s: "step lim b st = Inr st1" and w: "wf st" and c: "current_hunk st = Some q"
    and b: "startswith b ''diff --git'' \<or> hunk_match b \<noteq> None"
  shows "valid_hunk (fls st1) q \<and> current_hunk st1 \<noteq> Some q \<and>
         hunk_at (fls st1) q = hunk_at (fls st) q"
proof -
  have q: "valid_hunk (fls st) q" using w c by (simp add: wf_def)
  from b show ?thesis
  proof
    assume "startswith b ''diff --git''"
    then show ?thesis using s q by (auto simp: step_git)
  next
    assume m: "hunk_match b \<noteq> None"
    obtain i where i: "current_file st = Some i" "i < length (fls st)"
      using w c by (auto simp: wf_def split: option.splits)
    obtain g1 g2 g3 g4 where g: "hunk_match b = Some (g1, g2, g3, g4)"
      using m by (cases "hunk_match b") auto
    have "hunk_or_content lim b st = Inr st1" using s m by (simp add: step_hunk_header)
    then obtain h where h: "st1 = append_hunk i h st"
      using g i(1) by (auto simp: hunk_or_content_def split: sum.splits)
    have "q \<noteq> (i, length (hunks (fls st ! i)))"
      using q by (auto simp: valid_hunk_def)
    then show ?thesis using h i(2) q
      by (simp add: valid_add_hunk hunk_at_add_hunk_old)
  qed
qed

text \<open>
  Claim C8, as the code has it. Once a \<open>diff --git\<close> line or a line matching the
  hunk-header pattern is read while a hunk is open, that hunk is never changed again:
  in the final result it is what it was before that line, whatever follows.
\<close>

theorem hunk_closed_at_boundary:
  assumes "split_nl diff_text = pre @ b # post"
    and "parse_lines max_str_digits pre init_state = Inr st"
    and "current_hunk st = Some q"
    and "startswith b ''diff --git'' \<or> hunk_match b \<noteq> None"
    and "parse_diff max_str_digits diff_text = Inr r"
  shows "hunks (files r ! fst q) ! snd q = hunks (files (result st) ! fst q) ! snd q"
proof -
  have w: "wf st" using assms(2) wf_init by (rule wf_parse_lines)
  from assms(5) obtain st' where
    st': "parse_lines max_str_digits (split_nl diff_text) init_state = Inr st'" "result st' = r"
    by (rule parse_diff_state)
  from st'(1) obtain st1 where
    s: "step max_str_digits b st = Inr st1" "parse_lines max_str_digits post st1 = Inr st'"
    using assms(1,2) by (auto simp: parse_lines_append split: sum.splits)
  have f: "valid_hunk (fls st1) q \<and> current_hunk st1 \<noteq> Some q \<and>
         hunk_at (fls st1) q = hunk_at (fls st) q"
    using s(1) w assms(3,4) by (rule boundary_closes)
  then have "hunk_at (fls st') q = hunk_at (fls st1) q"
    using frozen_parse_lines [OF s(2) wf_step [OF s(1) w]] by blast
  then show ?thesis using f st'(2) by (simp add: hunk_at_def)
qed

lemma two_hunk_facts:
  "split_nl two_hunk_text = two_hunk_pre @ ''@@ -9 +10 @@'' # [''+q'', '' r'']"
  "parse_lines 4300 two_hunk_pre init_state = Inr two_hunk_state"
  "current_hunk two_hunk_state = Some (0, 0)"
  "hunk_match ''@@ -9 +10 @@'' \<noteq> None"
  "parse_diff 4300 two_hunk_text = Inr two_hunk_result"
  by code_simp+

theorem hunk_closed_at_boundary_witness:
  "split_nl two_hunk_text = two_hunk_pre @ ''@@ -9 +10 @@'' # [''+q'', '' r''] \<and>
   parse_lines 4300 two_hunk_pre init_state = Inr two_hunk_state \<and>
   current_hunk two_hunk_state = Some (0, 0) \<and>
   hunk_match ''@@ -9 +10 @@'' \<noteq> None \<and>
   parse_diff 4300 two_hunk_text = Inr two_hunk_result \<and>
   hunks (files two_hunk_result ! fst (0 :: nat, 0 :: nat)) ! snd (0 :: nat, 0 :: nat) =
     hunks (files (result two_hunk_state) ! fst (0 :: nat, 0 :: nat)) ! snd (0 :: nat, 0 :: nat)"
  using two_hunk_facts
    hunk_closed_at_boundary [OF two_hunk_facts(1,2,3) disjI2 [OF two_hunk_facts(4)]
      two_hunk_facts(5)]
  by blast

text \<open>
  The claim as worded fails for a new-path line that makes a \<open>FileDiff\<close>: the hunk of
  the file before stays open, and the line \<open>+y\<close> that follows is appended to it.
\<close>

theorem stale_hunk_counterexample:
  "parse_diff 4300 (join_nl stale_hunk_lines) =
     Inr \<lparr>files =
           [\<lparr>filename = ''a.py'', old_filename = None, status = ''modified'',
             hunks = [\<lparr>old_start = 1, old_count = 1, new_start = 1, new_count = 2,
                       lines = [\<lparr>number = 1, content = ''x'', type = ''add''\<rparr>]\<rparr>],
             is_binary = False\<rparr>,
            \<lparr>filename = ''b.py'', old_filename = None, status = ''modified'',
             hunks = [], is_binary = False\<rparr>]\<rparr> \<and>
   parse_diff 4300 (join_nl (stale_hunk_lines @ [''+y''])) =
     Inr \<lparr>files =
           [\<lparr>filename = ''a.py'', old_filename = None, status = ''modified'',
             hunks = [\<lparr>old_start = 1, old_count = 1, new_start = 1, new_count = 2,
                       lines = [\<lparr>number = 1, content = ''x'', type = ''add''\<rparr>,
                                \<lparr>number = 2, content = ''y'', type = ''add''\<rparr>]\<rparr>],
             is_binary = False\<rparr>,
            \<lparr>filename = ''b.py'', old_filename = None, status = ''modified'',
             hunks = [], is_binary = False\<rparr>]\<rparr>"
  by code_simp

section \<open>Parsing behind files already made\<close>

lemma shifted_append_file:
  "shifted base st st' \<Longrightarrow> shifted base (append_file fd st) (append_file fd st')"
  by (simp add: shifted_def)

lemma shifted_add_hunk:
  "add_hunk_at (length base + i) h (base @ fs) = base @ add_hunk_at i h fs"
  by (simp add: add_hunk_at_def list_update_append nth_append)

lemma shifted_add_line:
  "add_line_at (length base + i, j) l (base @ fs) = base @ add_line_at (i, j) l fs"
  by (simp add: add_line_at_def hunk_at_def list_update_append nth_append)

lemma shifted_append_hunk:
  "shifted base st st' \<Longrightarrow>
   shifted base (append_hunk i h st) (append_hunk (length base + i) h st')"
  by (simp add: shifted_def shifted_add_hunk)

lemma shifted_content_line:
  assumes "shifted base st st'"
  shows "shifted base (content_line ln st) (content_line ln st')"
proof (cases "current_hunk st")
  case None
  then show ?thesis using assms by (simp add: content_line_def shifted_def)
next
  case (Some p)
  obtain i j where p: "p = (i, j)" by (cases p) auto
  have c: "current_hunk st' = Some (length base + i, j)" "new_line_num st' = new_line_num st"
    using assms Some p by (simp_all add: shifted_def)
  show ?thesis
    using assms Some p c
    by (simp add: content_line_def shifted_def shifted_add_line)
qed

lemma shifted_hunk_or_content:
  assumes "shifted base st st'"
  shows "rel_sum (=) (shifted base) (hunk_or_content lim ln st) (hunk_or_content lim ln st')"
proof (cases "hunk_match ln")
  case None
  then show ?thesis using assms by (simp add: hunk_or_content_def shifted_content_line)
next
  case (Some g)
  obtain g1 g2 g3 g4 where g: "g = (g1, g2, g3, g4)" by (cases g) auto
  show ?thesis
  proof (cases "current_file st")
    case None
    then have "current_file st' = None" using assms by (simp add: shifted_def)
    then show ?thesis using assms Some g None
      by (simp add: hunk_or_content_def shifted_content_line)
  next
    case (Some i)
    then have "current_file st' = Some (length base + i)" using assms by (simp add: shifted_def)
    then show ?thesis using assms \<open>hunk_match ln = Some g\<close> g Some
      by (auto simp: hunk_or_content_def shifted_append_hunk split: sum.splits)
  qed
qed

lemma shifted_step:
  assumes "shifted base st st'"
  shows "rel_sum (=) (shifted base) (step lim ln st) (step lim ln st')"
proof -
  have p: "pending_status st' = pending_status st" using assms by (simp add: shifted_def)
  have ctrl: "\<And>f. shifted base (st\<lparr>pending_status := f\<rparr>) (st'\<lparr>pending_status := f\<rparr>)"
    using assms by (simp add: shifted_def)
  have reset: "shifted base
       (st\<lparr>current_file := None, current_hunk := None, pending_status := None\<rparr>)
       (st'\<lparr>current_file := None, current_hunk := None, pending_status := None\<rparr>)"
    using assms by (simp add: shifted_def)
  show ?thesis
    unfolding step_def p
    using assms ctrl reset
    by (simp add: shifted_append_file shifted_hunk_or_content split: option.splits)
qed

lemma shifted_parse_lines:
  "shifted base st st' \<Longrightarrow>
   rel_sum (=) (shifted base) (parse_lines lim ls st) (parse_lines lim ls st')"
proof (induction ls arbitrary: st st')
  case Nil
  then show ?case by simp
next
  case (Cons l ls)
  have "rel_sum (=) (shifted base) (step lim l st) (step lim l st')"
    using Cons.prems by (rule shifted_step)
  then show ?case
    using Cons.IH by (cases "step lim l st"; cases "step lim l st'") auto
qed

section \<open>Pure renames\<close>

lemma no_file_line_noop:
  assumes "makes_no_file l" "current_file st = None" "current_hunk st = None"
  shows "step lim l st = Inr st"
proof (cases "hunk_match l")
  case None
  then show ?thesis using assms
    by (simp add: makes_no_file_def step_def hunk_or_content_def content_line_def)
next
  case (Some g)
  then show ?thesis using assms
    by (simp add: makes_no_file_def step_def hunk_or_content_def content_line_def
        split: prod.splits)
qed

lemma no_file_lines_noop:
  "\<forall>l\<in>set rs. makes_no_file l \<Longrightarrow> current_file st = None \<Longrightarrow> current_hunk st = None \<Longrightarrow>
   parse_lines lim rs st = Inr st"
  by (induction rs) (simp_all add: no_file_line_noop)

lemma rename_lines_make_no_file:
  assumes "startswith l ''similarity index '' \<or> startswith l ''rename from '' \<or>
           startswith l ''rename to '' \<or> l = []"
  shows "makes_no_file l"
  using assms
  by (auto simp: makes_no_file_def BINARY_MARKER_def dest: startswith_first)
     (simp_all add: startswith_def)

lemma parse_after_reset:
  assumes "post = [] \<or> startswith (hd post) ''diff --git''"
  shows "map_sum id result
           (parse_lines lim post
              (st\<lparr>current_file := None, current_hunk := None, pending_status := None\<rparr>)) =
         map_sum id result (parse_lines lim post st)"
proof (cases post)
  case Nil
  then show ?thesis by simp
next
  case (Cons d' post')
  then have "startswith d' ''diff --git''" using assms by simp
  then show ?thesis using Cons by (simp add: step_git)
qed

lemma parse_result_map: "parse_result lim ls = map_sum id result (parse_lines lim ls init_state)"
  by (simp add: parse_result_def split: sum.splits)

lemma section_without_file:
  assumes "startswith d ''diff --git''" "\<forall>l\<in>set rs. makes_no_file l"
    and "parse_lines lim pre init_state = Inr st"
  shows "parse_lines lim (pre @ d # rs @ post) init_state =
         parse_lines lim post
           (st\<lparr>current_file := None, current_hunk := None, pending_status := None\<rparr>)"
  using assms
  by (simp add: parse_lines_append step_git no_file_lines_noop)

text \<open>
  Claim C7, as the code has it. A pure-rename section is a \<open>diff --git\<close> line
  followed only by lines that are no status marker, binary-files marker, old-path or
  new-path line: the \<open>similarity index\<close>, \<open>rename from\<close> and \<open>rename to\<close> lines, and
  the empty line that a final newline or a separator leaves. Such a section produces no
  \<open>FileDiff\<close>: the result up to the end of the section is the result before it;
  whatever follows, the result for the whole input is the result with the section
  reduced to its \<open>diff --git\<close> line; and when the section ends the input or is
  followed by a \<open>diff --git\<close> line, it is the result for the input without the
  section.
\<close>

theorem pure_rename_section_ignored:
  assumes "split_nl diff_text = pre @ d # rs @ post"
    and "startswith d ''diff --git''"
    and "\<forall>l\<in>set rs. makes_no_file l"
  shows "parse_result max_str_digits (pre @ d # rs) = parse_result max_str_digits pre \<and>
         parse_diff max_str_digits diff_text = parse_result max_str_digits (pre @ d # post) \<and>
         (post = [] \<or> startswith (hd post) ''diff --git'' \<longrightarrow>
            parse_diff max_str_digits diff_text = parse_result max_str_digits (pre @ post))"
proof (cases "parse_lines max_str_digits pre init_state")
  case (Inl e)
  then show ?thesis
    using assms(1) by (simp add: parse_diff_def parse_result_def parse_lines_append)
next
  case (Inr st)
  let ?r = "st\<lparr>current_file := None, current_hunk := None, pending_status := None\<rparr>"
  have a: "parse_lines max_str_digits (pre @ d # rs @ post) init_state =
        parse_lines max_str_digits post ?r"
    using assms(2,3) Inr by (rule section_without_file)
  have b: "parse_lines max_str_digits (pre @ d # rs) init_state = Inr ?r"
    using section_without_file [OF assms(2,3) Inr, of "[]"] by simp
  have c: "parse_lines max_str_digits (pre @ d # post) init_state =
        parse_lines max_str_digits post ?r"
    using section_without_file [OF assms(2) _ Inr, of "[]" post] by simp
  have d: "parse_lines max_str_digits (pre @ post) init_state =
        parse_lines max_str_digits post st"
    using Inr by (simp add: parse_lines_append)
  have 1: "parse_result max_str_digits (pre @ d # rs) = parse_result max_str_digits pre"
    using b Inr by (simp add: parse_result_def)
  have 2: "parse_diff max_str_digits diff_text = parse_result max_str_digits (pre @ d # post)"
    using a c assms(1) by (simp add: parse_diff_def parse_result_map)
  have 3: "parse_diff max_str_digits diff_text = parse_result max_str_digits (pre @ post)"
    if "post = [] \<or> startswith (hd post) ''diff --git''"
    using parse_after_reset [OF that, of max_str_digits st] a d assms(1)
    by (simp add: parse_diff_def parse_result_map)
  show ?thesis using 1 2 3 by blast
qed

lemma after_rename_facts:
  "split_nl after_rename_text =
     split_nl sample_text @ hd rename_section # (tl rename_section @ [[]]) @ []"
  "startswith (hd rename_section) ''diff --git''"
  "parse_result 4300 (split_nl sample_text @ []) = Inr sample_result"
  "last (split_nl after_rename_text) = []"
  by code_simp+

lemma rename_tail: "\<forall>l\<in>set (tl rename_section @ [[]]). makes_no_file l"
  by (auto simp: rename_section_def intro!: rename_lines_make_no_file)
     (simp_all add: startswith_def)

theorem pure_rename_section_ignored_witness:
  "split_nl after_rename_text =
     split_nl sample_text @ hd rename_section # (tl rename_section @ [[]]) @ [] \<and>
   last (split_nl after_rename_text) = [] \<and>
   startswith (hd rename_section) ''diff --git'' \<and>
   parse_diff 4300 after_rename_text = parse_result 4300 (split_nl sample_text @ []) \<and>
   parse_diff 4300 after_rename_text = Inr sample_result"
proof -
  note t = pure_rename_section_ignored [OF after_rename_facts(1,2) rename_tail, of 4300]
  have e: "parse_diff 4300 after_rename_text = parse_result 4300 (split_nl sample_text @ [])"
    using t by blast
  then have "parse_diff 4300 after_rename_text = Inr sample_result"
    by (simp only: after_rename_facts(3))
  then show ?thesis using e after_rename_facts(1,2,4) by blast
qed

text \<open>The claim as worded fails: a pure rename alone gives no \<open>FileDiff\<close> at all.\<close>

theorem pure_rename_counterexample:
  "parse_diff 4300 rename_text = Inr \<lparr>files = []\<rparr>"
  by code_simp

section \<open>Deleted files\<close>

lemma startswith_shorter:
  "startswith s p \<Longrightarrow> startswith s q \<Longrightarrow> length q \<le> length p \<Longrightarrow> q = take (length q) p"
  by (metis startswith_def take_take min.absorb1)

lemma step_deleted_marker:
  assumes "startswith m ''deleted file''"
  shows "step lim m st = Inr (st\<lparr>pending_status := Some ''deleted''\<rparr>)"
proof -
  have "\<not> startswith m ''diff --git''"
    using startswith_shorter [OF assms, of "''diff --git''"] by auto
  moreover have "\<not> startswith m ''new file''"
    using assms by (auto dest: startswith_first)
  ultimately show ?thesis using assms by (simp add: step_def)
qed

lemma ignored_line_noop: "ignored_line l \<Longrightarrow> step lim l st = Inr st"
  by (simp add: ignored_line_def makes_no_file_def step_def hunk_or_content_def
      content_line_def split: option.splits)

lemma steps_ignored: "\<forall>x\<in>set xs. ignored_line x \<Longrightarrow> parse_lines lim xs st = Inr st"
  by (induction xs) (simp_all add: ignored_line_noop)

lemma index_line_ignored: "startswith x ''index '' \<Longrightarrow> ignored_line x"
proof -
  assume a: "startswith x ''index ''"
  then have "\<not> startswith x ''@@ -''"
    by (auto dest: startswith_first)
  then have "hunk_match x = None" by (simp add: hunk_match_def re_lit_def)
  then show ?thesis using a
    by (auto simp: ignored_line_def makes_no_file_def BINARY_MARKER_def dest: startswith_first)
qed

lemma empty_line_ignored: "ignored_line []"
  by (simp add: ignored_line_def makes_no_file_def BINARY_MARKER_def startswith_def
      hunk_match_def re_lit_def)

lemma step_old_path_config:
  "pending_status st = Some ''deleted'' \<Longrightarrow>
   step lim ''--- a/config.json'' st =
     Inr (append_file \<lparr>filename = ''config.json'', old_filename = None, status = ''deleted'',
                       hunks = [], is_binary = False\<rparr> st)"
  by (simp add: step_def startswith_def BINARY_MARKER_def)

lemma step_dev_null: "step lim ''+++ /dev/null'' st = Inr st"
  by (simp add: step_def startswith_def BINARY_MARKER_def)

lemma step_header_open:
  assumes "hunk_match hh \<noteq> None" "current_file st = Some i" "step lim hh st = Inr s"
  obtains h where "lines h = []" "s = append_hunk i h st"
proof -
  obtain g1 g2 g3 g4 where g: "hunk_match hh = Some (g1, g2, g3, g4)"
    using assms(1) by (cases "hunk_match hh") auto
  have "hunk_or_content lim hh st = Inr s" using assms(1,3) by (simp add: step_hunk_header)
  then have "\<exists>h. s = append_hunk i h st \<and> lines h = []"
    using g assms(2)
    apply (clarsimp simp: hunk_or_content_def split: sum.splits)
    apply (rule exI, rule conjI, rule refl, simp)
    done
  then show ?thesis using that by blast
qed

lemma add_lines_at_Nil: "add_lines_at p [] fs = fs"
  by (simp add: add_lines_at_def hunk_at_def)

lemma add_lines_at_Cons:
  "valid_hunk fs p \<Longrightarrow> add_lines_at p ls (add_line_at p l fs) = add_lines_at p (l # ls) fs"
  by (simp add: add_lines_at_def add_line_at_def hunk_at_def valid_hunk_def)

lemma minus_lines:
  assumes "\<forall>c\<in>set cs. startswith c ''-'' \<and> \<not> startswith c ''--- '' \<or> ignored_line c"
    and "current_hunk st = Some p" and "valid_hunk (fls st) p"
  shows "\<exists>st'. parse_lines lim cs st = Inr st' \<and>
           fls st' =
             add_lines_at p
               (map (\<lambda>c. \<lparr>number = new_line_num st, content = drop 1 c, type = ''delete''\<rparr>)
                  (filter (\<lambda>c. startswith c ''-'') cs))
               (fls st) \<and>
           current_hunk st' = Some p"
  using assms
proof (induction cs arbitrary: st)
  case Nil
  then show ?case by (simp add: add_lines_at_Nil)
next
  case (Cons c cs)
  show ?case
  proof (cases "startswith c ''-''")
    case True
    then have nd: "\<not> startswith c ''--- ''"
      using Cons.prems(1) by (auto simp: ignored_line_def)
    define l where "l = \<lparr>number = new_line_num st, content = drop 1 c, type = ''delete''\<rparr>"
    have s: "step lim c st = Inr (append_line p l st)"
      unfolding l_def using True nd Cons.prems(2) by (simp add: minus_line_step)
    have "\<exists>st'. parse_lines lim cs (append_line p l st) = Inr st' \<and>
           fls st' =
             add_lines_at p
               (map (\<lambda>c. \<lparr>number = new_line_num (append_line p l st), content = drop 1 c,
                            type = ''delete''\<rparr>) (filter (\<lambda>c. startswith c ''-'') cs))
               (fls (append_line p l st)) \<and>
           current_hunk st' = Some p"
      using Cons.prems by (intro Cons.IH) simp_all
    then show ?thesis
      using s True Cons.prems(3) by (simp add: add_lines_at_Cons l_def)
  next
    case False
    then have "ignored_line c" using Cons.prems(1) by auto
    then have "step lim c st = Inr st" by (rule ignored_line_noop)
    moreover have "\<exists>st'. parse_lines lim cs st = Inr st' \<and>
           fls st' =
             add_lines_at p
               (map (\<lambda>c. \<lparr>number = new_line_num st, content = drop 1 c, type = ''delete''\<rparr>)
                  (filter (\<lambda>c. startswith c ''-'') cs))
               (fls st) \<and>
           current_hunk st' = Some p"
      using Cons.prems by (intro Cons.IH) simp_all
    ultimately show ?thesis using False by simp
  qed
qed

lemma deletion_section_state:
  assumes d: "startswith d ''diff --git''" and m: "startswith m ''deleted file''"
    and idx0: "\<forall>x\<in>set idx0. ignored_line x"
    and idx: "\<forall>x\<in>set idx. ignored_line x"
    and hh: "hunk_match hh \<noteq> None"
    and cs: "\<forall>c\<in>set cs. startswith c ''-'' \<and> \<not> startswith c ''--- '' \<or> ignored_line c"
    and run: "parse_lines lim
                (d # idx0 @ m # idx @ [''--- a/config.json'', ''+++ /dev/null'', hh] @ cs) s0 =
              Inr s5"
  shows "\<exists>H. fls s5 =
           fls s0 @
           [\<lparr>filename = ''config.json'', old_filename = None, status = ''deleted'',
             hunks = [H\<lparr>lines :=
                         map (\<lambda>c. \<lparr>number = new_start H, content = drop 1 c, type = ''delete''\<rparr>)
                           (filter (\<lambda>c. startswith c ''-'') cs)\<rparr>],
             is_binary = False\<rparr>]"
proof -
  define F0 where "F0 = \<lparr>filename = ''config.json'', old_filename = None, status = ''deleted'',
                       hunks = [], is_binary = False\<rparr>"
  define s2 where "s2 = s0\<lparr>current_file := None, current_hunk := None,
                         pending_status := Some ''deleted''\<rparr>"
  define s3 where "s3 = append_file F0 s2"
  define n where "n = length (fls s0)"
  let ?head = "d # idx0 @ m # idx @ [''--- a/config.json'', ''+++ /dev/null'']"
  have head: "parse_lines lim ?head s0 = Inr s3"
    using d m idx0 idx
    by (simp add: parse_lines_append step_git step_deleted_marker steps_ignored
        step_old_path_config step_dev_null s2_def s3_def F0_def)
  have "parse_lines lim (?head @ hh # cs) s0 = Inr s5"
    using run by simp
  then have "parse_lines lim (hh # cs) s3 = Inr s5"
    unfolding parse_lines_append [of lim ?head]
    using head by simp
  then obtain s4 where s4: "step lim hh s3 = Inr s4" "parse_lines lim cs s4 = Inr s5"
    by (auto split: sum.splits)
  have cf: "current_file s3 = Some n" "fls s3 = fls s0 @ [F0]" "current_hunk s3 = None"
    by (simp_all add: s3_def s2_def n_def)
  obtain H where H: "lines H = []" "s4 = append_hunk n H s3"
    using hh cf(1) s4(1) by (rule step_header_open)
  have f4: "fls s4 = fls s0 @ [F0\<lparr>hunks := [H]\<rparr>]"
    using H(2) cf(2) by (simp add: add_hunk_at_def n_def F0_def)
  have c4: "current_hunk s4 = Some (n, 0)" "new_line_num s4 = new_start H"
    using H(2) cf(2) by (simp_all add: n_def F0_def)
  have v4: "valid_hunk (fls s4) (n, 0)"
    by (simp add: f4 valid_hunk_def n_def)
  obtain s5' where s5': "parse_lines lim cs s4 = Inr s5'"
    "fls s5' =
       add_lines_at (n, 0)
         (map (\<lambda>c. \<lparr>number = new_line_num s4, content = drop 1 c, type = ''delete''\<rparr>)
            (filter (\<lambda>c. startswith c ''-'') cs))
         (fls s4)"
    using minus_lines [OF cs c4(1) v4, of lim] by blast
  have "s5' = s5" using s5'(1) s4(2) by simp
  then have "fls s5 =
      fls s0 @
      [F0\<lparr>hunks := [H\<lparr>lines :=
          map (\<lambda>c. \<lparr>number = new_start H, content = drop 1 c, type = ''delete''\<rparr>)
            (filter (\<lambda>c. startswith c ''-'') cs)\<rparr>]\<rparr>]"
    using s5'(2) f4 c4(2) H(1)
    by (simp add: add_lines_at_def hunk_at_def n_def)
  then show ?thesis by (auto simp: F0_def)
qed

lemma deleted_lines_only:
  "deleted_lines
     \<lparr>filename = fn, old_filename = ofn, status = s,
      hunks = [H\<lparr>lines := map (\<lambda>c. \<lparr>number = k, content = drop 1 c, type = ''delete''\<rparr>) cs\<rparr>],
      is_binary = b\<rparr> =
   map (\<lambda>c. \<lparr>number = k, content = drop 1 c, type = ''delete''\<rparr>) cs"
  "added_lines
     \<lparr>filename = fn, old_filename = ofn, status = s,
      hunks = [H\<lparr>lines := map (\<lambda>c. \<lparr>number = k, content = drop 1 c, type = ''delete''\<rparr>) cs\<rparr>],
      is_binary = b\<rparr> = []"
  by (simp_all add: deleted_lines_def added_lines_def filter_empty_conv)

lemma parse_behind:
  assumes "post = [] \<or> startswith (hd post) ''diff --git''"
    and "parse_lines lim post st = Inr st'"
  shows "\<exists>sq. parse_lines lim post init_state = Inr sq \<and> fls st' = fls st @ fls sq"
proof (cases post)
  case Nil
  then show ?thesis using assms(2) by (simp add: init_state_def)
next
  case (Cons d' post')
  then have g: "startswith d' ''diff --git''" using assms(1) by simp
  define sr where "sr = st\<lparr>current_file := None, current_hunk := None, pending_status := None\<rparr>"
  have r: "parse_lines lim post' sr = Inr st'"
    using assms(2) Cons g by (simp add: step_git sr_def)
  have i: "parse_lines lim post init_state = parse_lines lim post' init_state"
    using Cons g by (simp add: step_git init_state_def)
  have "shifted (fls st) init_state sr"
    by (simp add: shifted_def sr_def init_state_def)
  then have "rel_sum (=) (shifted (fls st)) (parse_lines lim post' init_state)
               (parse_lines lim post' sr)"
    by (rule shifted_parse_lines)
  then obtain sq where "parse_lines lim post' init_state = Inr sq" "shifted (fls st) sq st'"
    using r by (cases "parse_lines lim post' init_state") auto
  then show ?thesis using i by (auto simp: shifted_def)
qed

text \<open>
  Claim C6, as the code has it. The file section is a \<open>diff --git\<close> line, a
  deleted-file marker line, the old-path line \<open>--- a/config.json\<close>, the new-path
  line \<open>+++ /dev/null\<close> and one hunk whose content lines all begin with \<open>-\<close> and
  none with \<open>--- \<close>; lines that the loop passes over (index lines, empty lines, the
  no-newline marker) may stand before the old-path line and among or after the content
  lines. Parsing up to the end of the section adds exactly one \<open>FileDiff\<close> to the
  files of the lines before it. Its status is deleted, it has as many deleted lines as
  the hunk has \<open>-\<close> lines, with their text, and no added line. When the section ends
  the input or a \<open>diff --git\<close> line follows, the files of the result are those of
  the lines before the section, this one, and those of the lines after the section.
\<close>

theorem deleted_file_section:
  assumes "split_nl diff_text =
             pre @ (d # idx0 @ m # idx @
                    [''--- a/config.json'', ''+++ /dev/null'', hh] @ cs) @ post"
    and "startswith d ''diff --git''" and "startswith m ''deleted file''"
    and "\<forall>x\<in>set idx0. ignored_line x" and "\<forall>x\<in>set idx. ignored_line x"
    and "hunk_match hh \<noteq> None"
    and "\<forall>c\<in>set cs. startswith c ''-'' \<and> \<not> startswith c ''--- '' \<or> ignored_line c"
    and "parse_diff max_str_digits diff_text = Inr r"
  shows "\<exists>rp F.
           parse_result max_str_digits pre = Inr rp \<and>
           parse_result max_str_digits
             (pre @ (d # idx0 @ m # idx @
                     [''--- a/config.json'', ''+++ /dev/null'', hh] @ cs)) =
             Inr \<lparr>files = files rp @ [F]\<rparr> \<and>
           filename F = ''config.json'' \<and> status F = ''deleted'' \<and> \<not> is_binary F \<and>
           length (hunks F) = 1 \<and>
           map content (deleted_lines F) = map (drop 1) (filter (\<lambda>c. startswith c ''-'') cs) \<and>
           length (deleted_lines F) = length (filter (\<lambda>c. startswith c ''-'') cs) \<and>
           added_lines F = [] \<and>
           (post = [] \<or> startswith (hd post) ''diff --git'' \<longrightarrow>
              (\<exists>rq. parse_result max_str_digits post = Inr rq \<and>
                    files r = files rp @ [F] @ files rq))"
proof -
  let ?sec = "d # idx0 @ m # idx @ [''--- a/config.json'', ''+++ /dev/null'', hh] @ cs"
  from assms(8) obtain st' where
    st': "parse_lines max_str_digits (split_nl diff_text) init_state = Inr st'" "result st' = r"
    by (rule parse_diff_state)
  have "parse_lines max_str_digits (pre @ ?sec @ post) init_state = Inr st'"
    using st'(1) assms(1) by simp
  then obtain s0 s5 where
    s0: "parse_lines max_str_digits pre init_state = Inr s0"
    and s5: "parse_lines max_str_digits ?sec s0 = Inr s5"
    and sp: "parse_lines max_str_digits post s5 = Inr st'"
    unfolding parse_lines_append [of max_str_digits pre]
      parse_lines_append [of max_str_digits ?sec]
    by (auto split: sum.splits)
  obtain H where H: "fls s5 =
           fls s0 @
           [\<lparr>filename = ''config.json'', old_filename = None, status = ''deleted'',
             hunks = [H\<lparr>lines :=
                         map (\<lambda>c. \<lparr>number = new_start H, content = drop 1 c, type = ''delete''\<rparr>)
                           (filter (\<lambda>c. startswith c ''-'') cs)\<rparr>],
             is_binary = False\<rparr>]"
    using deletion_section_state [OF assms(2-7) s5] by blast
  define F where "F = \<lparr>filename = ''config.json'', old_filename = None, status = ''deleted'',
             hunks = [H\<lparr>lines :=
                         map (\<lambda>c. \<lparr>number = new_start H, content = drop 1 c, type = ''delete''\<rparr>)
                           (filter (\<lambda>c. startswith c ''-'') cs)\<rparr>],
             is_binary = False\<rparr>"
  have 1: "parse_result max_str_digits pre = Inr (result s0)"
    using s0 by (simp add: parse_result_def)
  have "parse_lines max_str_digits (pre @ ?sec) init_state = Inr s5"
    unfolding parse_lines_append [of max_str_digits pre] using s0 s5 by simp
  moreover have "result s5 = \<lparr>files = files (result s0) @ [F]\<rparr>"
    using H by (simp add: F_def)
  ultimately have 2: "parse_result max_str_digits (pre @ ?sec) =
      Inr \<lparr>files = files (result s0) @ [F]\<rparr>"
    by (simp add: parse_result_def)
  have 3: "filename F = ''config.json''" "status F = ''deleted''" "\<not> is_binary F"
    "length (hunks F) = 1"
    by (simp_all add: F_def)
  have 4: "deleted_lines F =
      map (\<lambda>c. \<lparr>number = new_start H, content = drop 1 c, type = ''delete''\<rparr>)
        (filter (\<lambda>c. startswith c ''-'') cs)"
    "added_lines F = []"
    unfolding F_def by (rule deleted_lines_only)+
  have 5: "map content (deleted_lines F) = map (drop 1) (filter (\<lambda>c. startswith c ''-'') cs)"
    "length (deleted_lines F) = length (filter (\<lambda>c. startswith c ''-'') cs)"
    unfolding 4 by simp_all
  have 6: "\<exists>rq. parse_result max_str_digits post = Inr rq \<and>
                files r = files (result s0) @ [F] @ files rq"
    if b: "post = [] \<or> startswith (hd post) ''diff --git''"
  proof -
    obtain sq where sq: "parse_lines max_str_digits post init_state = Inr sq"
      "fls st' = fls s5 @ fls sq"
      using parse_behind [OF b sp] by blast
    have "parse_result max_str_digits post = Inr (result sq)"
      using sq(1) by (simp add: parse_result_def)
    moreover have "files r = files (result s0) @ [F] @ files (result sq)"
      using sq(2) H st'(2) by (simp add: F_def)
    ultimately show ?thesis by blast
  qed
  show ?thesis using 1 2 3 4(2) 5 6 by blast
qed

lemma deletion_facts:
  "split_nl deletion_text =
     split_nl sample_text @
     (''diff --git a/config.json b/config.json'' # [] @
      ''deleted file mode 100644'' # [''index 5e6f..0000000''] @
      [''--- a/config.json'', ''+++ /dev/null'', ''@@ -1,2 +0,0 @@''] @
      [''-{'', ''-}'', []]) @
     deletion_post"
  "startswith ''diff --git a/config.json b/config.json'' ''diff --git''"
  "startswith ''deleted file mode 100644'' ''deleted file''"
  "hunk_match ''@@ -1,2 +0,0 @@'' \<noteq> None"
  "startswith (hd deletion_post) ''diff --git''"
  "parse_diff 4300 deletion_text = Inr deletion_result"
  "last (split_nl deletion_text) = []"
  by code_simp+

lemma deletion_ignored:
  "\<forall>x\<in>set ([] :: string list). ignored_line x"
  "\<forall>x\<in>set [''index 5e6f..0000000'']. ignored_line x"
  "\<forall>c\<in>set [''-{'', ''-}'', []].
     startswith c ''-'' \<and> \<not> startswith c ''--- '' \<or> ignored_line c"
proof -
  have i: "ignored_line ''index 5e6f..0000000''"
    by (rule index_line_ignored) (simp add: startswith_def)
  show "\<forall>x\<in>set ([] :: string list). ignored_line x" by simp
  show "\<forall>x\<in>set [''index 5e6f..0000000'']. ignored_line x" using i by simp
  show "\<forall>c\<in>set [''-{'', ''-}'', []].
     startswith c ''-'' \<and> \<not> startswith c ''--- '' \<or> ignored_line c"
    by (simp add: empty_line_ignored startswith_def)
qed

theorem deleted_file_section_witness:
  "parse_diff 4300 deletion_text = Inr deletion_result \<and>
   last (split_nl deletion_text) = [] \<and>
   hunk_match ''@@ -1,2 +0,0 @@'' \<noteq> None \<and>
   startswith (hd deletion_post) ''diff --git'' \<and>
   (\<exists>rp F rq.
      parse_result 4300 (split_nl sample_text) = Inr rp \<and>
      parse_result 4300 deletion_post = Inr rq \<and>
      files deletion_result = files rp @ [F] @ files rq \<and>
      filename F = ''config.json'' \<and> status F = ''deleted'' \<and> \<not> is_binary F \<and>
      length (hunks F) = 1 \<and>
      length (deleted_lines F) = length (filter (\<lambda>c. startswith c ''-'') [''-{'', ''-}'', []]) \<and>
      added_lines F = [])"
proof -
  note t = deleted_file_section [OF deletion_facts(1,2,3) deletion_ignored(1,2)
      deletion_facts(4) deletion_ignored(3) deletion_facts(6)]
  then obtain rp F where
    a: "parse_result 4300 (split_nl sample_text) = Inr rp"
      "filename F = ''config.json''" "status F = ''deleted''" "\<not> is_binary F"
      "length (hunks F) = 1"
      "length (deleted_lines F) = length (filter (\<lambda>c. startswith c ''-'') [''-{'', ''-}'', []])"
      "added_lines F = []"
    and b: "deletion_post = [] \<or> startswith (hd deletion_post) ''diff --git'' \<longrightarrow>
              (\<exists>rq. parse_result 4300 deletion_post = Inr rq \<and>
                    files deletion_result = files rp @ [F] @ files rq)"
    by blast
  from b deletion_facts(5) obtain rq where
    "parse_result 4300 deletion_post = Inr rq"
    "files deletion_result = files rp @ [F] @ files rq"
    by blast
  then show ?thesis using a deletion_facts(4,5,6,7) by blast
qed

text \<open>
  The claim as worded fails twice: without a deleted-file marker the section gives no
  \<open>FileDiff\<close> at all, and a deleted line whose text begins with two dashes and a space
  is read as an old-path line and is missing from the deleted lines.
\<close>

theorem deleted_file_counterexample:
  "parse_diff 4300 unmarked_deletion_text = Inr \<lparr>files = []\<rparr> \<and>
   parse_diff 4300 dashed_deletion_text =
     Inr \<lparr>files =
           [\<lparr>filename = ''config.json'', old_filename = None, status = ''deleted'',
             hunks = [\<lparr>old_start = 1, old_count = 2, new_start = 0, new_count = 0,
                       lines = [\<lparr>number = 0, content = ''{'', type = ''delete''\<rparr>]\<rparr>],
             is_binary = False\<rparr>]\<rparr>"
  by code_simp

section \<open>Totality\<close>

lemma re_lit_length: "re_lit p s = Some r \<Longrightarrow> length r \<le> length s"
  by (auto simp: re_lit_def split: if_splits)

lemma re_digits_length:
  "re_digits s = Some (g, r) \<Longrightarrow> length g \<le> length s \<and> length r \<le> length s"
  by (auto simp: re_digits_def length_takeWhile_le length_dropWhile_le split: if_splits)

lemma re_opt_count_length:
  "re_opt_count s = (g, r) \<Longrightarrow>
   length r \<le> length s \<and> (case g of None \<Rightarrow> True | Some ds \<Rightarrow> length ds \<le> length s)"
  by (cases s)
     (auto simp: re_opt_count_def split: if_splits option.splits dest!: re_digits_length)

lemma hunk_match_lengths:
  assumes "hunk_match l = Some (g1, g2, g3, g4)"
  shows "length g1 \<le> length l \<and> length g3 \<le> length l \<and>
         (case g2 of None \<Rightarrow> True | Some ds \<Rightarrow> length ds \<le> length l) \<and>
         (case g4 of None \<Rightarrow> True | Some ds \<Rightarrow> length ds \<le> length l)"
proof -
  from assms obtain s1 s2 s3 s4 s5 s6 where
    a: "re_lit ''@@ -'' l = Some s1" "re_digits s1 = Some (g1, s2)"
       "re_opt_count s2 = (g2, s3)" "re_lit '' +'' s3 = Some s4"
       "re_digits s4 = Some (g3, s5)" "re_opt_count s5 = (g4, s6)"
    by (auto simp: hunk_match_def split: option.splits prod.splits)
  have "length s1 \<le> length l" using a(1) by (rule re_lit_length)
  moreover have "length g1 \<le> length s1 \<and> length s2 \<le> length s1"
    using a(2) by (rule re_digits_length)
  moreover have "length s3 \<le> length s2 \<and>
      (case g2 of None \<Rightarrow> True | Some ds \<Rightarrow> length ds \<le> length s2)"
    using a(3) by (rule re_opt_count_length)
  moreover have "length s4 \<le> length s3" using a(4) by (rule re_lit_length)
  moreover have "length g3 \<le> length s4 \<and> length s5 \<le> length s4"
    using a(5) by (rule re_digits_length)
  moreover have "length s6 \<le> length s5 \<and>
      (case g4 of None \<Rightarrow> True | Some ds \<Rightarrow> length ds \<le> length s5)"
    using a(6) by (rule re_opt_count_length)
  ultimately show ?thesis by (auto split: option.splits)
qed

lemma step_total_short:
  assumes "length ln \<le> 640"
  shows "\<exists>st'. step lim ln st = Inr st'"
proof (cases "step lim ln st")
  case (Inr st')
  then show ?thesis by blast
next
  case (Inl e)
  have no: "\<And>g1 g2 g3 g4. hunk_match ln = Some (g1, g2, g3, g4) \<Longrightarrow>
      (\<exists>a. py_int lim g1 = Inr a) \<and> (\<exists>a. py_int lim g3 = Inr a) \<and>
      (\<exists>a. py_int_or_1 lim g2 = Inr a) \<and> (\<exists>a. py_int_or_1 lim g4 = Inr a)"
    using assms by (auto simp: py_int_def py_int_or_1_def split: option.splits
        dest!: hunk_match_lengths)
  from Inl have "hunk_or_content lim ln st = Inl e"
    by (auto simp: step_def split: if_splits option.splits)
  then show ?thesis using no
    by (fastforce simp: hunk_or_content_def split: option.splits sum.splits prod.splits)
qed

lemma parse_lines_total_short:
  "\<forall>l\<in>set ls. length l \<le> 640 \<Longrightarrow> \<exists>st'. parse_lines lim ls st = Inr st'"
proof (induction ls arbitrary: st)
  case Nil
  then show ?case by simp
next
  case (Cons l ls)
  then obtain s where "step lim l st = Inr s" using step_total_short [of l lim st] by auto
  then show ?case using Cons.IH [of s] Cons.prems by simp
qed

lemma parse_diff_total_short:
  "\<forall>l\<in>set (split_nl diff_text). length l \<le> 640 \<Longrightarrow> \<exists>r. parse_diff lim diff_text = Inr r"
  using parse_lines_total_short [of "split_nl diff_text" lim init_state]
  by (auto simp: parse_diff_def parse_result_def)

lemma parse_diff_empty: "parse_diff lim [] = Inr \<lparr>files = []\<rparr>"
  by (simp add: parse_diff_def parse_result_def split_nl_def init_state_def step_def
      startswith_def BINARY_MARKER_def hunk_or_content_def hunk_match_def re_lit_def
      content_line_def)

lemma malformed_header_skipped:
  "startswith ln ''@@'' \<Longrightarrow> hunk_match ln = None \<Longrightarrow> step lim ln st = Inr st"
proof -
  assume a: "startswith ln ''@@''" and n: "hunk_match ln = None"
  then have "\<not> startswith ln ''diff --git''" "\<not> startswith ln ''new file''"
    "\<not> startswith ln ''deleted file''" "\<not> startswith ln BINARY_MARKER"
    "\<not> startswith ln ''--- ''" "\<not> startswith ln ''+++ ''" "\<not> startswith ln ''index ''"
    "\<not> startswith ln ''+''" "\<not> startswith ln ''-''" "\<not> startswith ln '' ''"
    by (auto simp: BINARY_MARKER_def dest: startswith_first)
  then show ?thesis using n
    by (simp add: step_def hunk_or_content_def content_line_def split: option.splits)
qed

lemma step_total_unlimited: "\<exists>st'. step 0 ln st = Inr st'"
proof (cases "step 0 ln st")
  case (Inl e)
  then show ?thesis
    by (auto simp: step_def hunk_or_content_def py_int_def py_int_or_1_def
        split: if_splits option.splits sum.splits prod.splits)
next
  case (Inr st')
  then show ?thesis by blast
qed

lemma parse_lines_total_unlimited: "\<exists>st'. parse_lines 0 ls st = Inr st'"
proof (induction ls arbitrary: st)
  case Nil
  then show ?case by simp
next
  case (Cons l ls)
  obtain s where "step 0 l st = Inr s" using step_total_unlimited by blast
  then show ?case using Cons.IH [of s] by simp
qed

lemma parse_diff_total_unlimited: "\<exists>r. parse_diff 0 diff_text = Inr r"
  using parse_lines_total_unlimited [of "split_nl diff_text" init_state]
  by (auto simp: parse_diff_def parse_result_def)

lemma long_header_match:
  assumes "0 < n"
  shows "hunk_match (''@@ -1 +'' @ replicate n (CHR ''1'') @ '' @@'') =
     Some (''1'', None, replicate n (CHR ''1''), None)"
proof -
  let ?R = "replicate n (CHR ''1'') @ '' @@''"
  have "takeWhile is_digit ?R = replicate n (CHR ''1'') @ takeWhile is_digit '' @@''"
    by (rule takeWhile_append2) (simp add: is_digit_def)
  moreover have "dropWhile is_digit ?R = dropWhile is_digit '' @@''"
    by (rule dropWhile_append2) (simp add: is_digit_def)
  ultimately have t: "takeWhile is_digit ?R = replicate n (CHR ''1'')"
    "dropWhile is_digit ?R = '' @@''"
    by (simp_all add: is_digit_def)
  have 1: "re_lit ''@@ -'' (''@@ -1 +'' @ ?R) = Some (''1 +'' @ ?R)"
    by (simp add: re_lit_def startswith_def)
  have 2: "re_digits (''1 +'' @ ?R) = Some (''1'', '' +'' @ ?R)"
    by (simp add: re_digits_def is_digit_def)
  have 3: "re_opt_count ('' +'' @ ?R) = (None, '' +'' @ ?R)"
    by (simp add: re_opt_count_def)
  have 4: "re_lit '' +'' ('' +'' @ ?R) = Some ?R"
    by (simp add: re_lit_def startswith_def)
  have 5: "re_digits ?R = Some (replicate n (CHR ''1''), '' @@'')"
    unfolding re_digits_def t using assms by simp
  have 6: "re_opt_count '' @@'' = (None, '' @@'')"
    by (simp add: re_opt_count_def)
  have 7: "re_lit '' @@'' '' @@'' = Some []"
    by (simp add: re_lit_def startswith_def)
  show ?thesis
    unfolding hunk_match_def 1 option.case 2 prod.case 3 4 5 6 7 by (rule refl)
qed

lemma long_header_raises:
  assumes "640 < n" "0 < lim" "lim < n"
  shows "parse_diff lim (join_nl [''+++ b/x'', ''@@ -1 +'' @ replicate n (CHR ''1'') @ '' @@'']) =
         Inl ValueError"
proof -
  let ?h = "''@@ -1 +'' @ replicate n (CHR ''1'') @ '' @@''"
  have "\<forall>l\<in>set [''+++ b/x'', ?h]. newline \<notin> set l" by (simp add: newline_def)
  then have sp: "split_nl (join_nl [''+++ b/x'', ?h]) = [''+++ b/x'', ?h]"
    by (intro split_join) simp_all
  define s1 where "s1 = append_file \<lparr>filename = ''x'', old_filename = None, status = ''modified'',
        hunks = [], is_binary = False\<rparr> init_state"
  have 1: "step lim ''+++ b/x'' init_state = Inr s1"
    by (simp add: step_def startswith_def BINARY_MARKER_def status_or_modified_def
        init_state_def s1_def)
  have m: "hunk_match ?h = Some (''1'', None, replicate n (CHR ''1''), None)"
    using assms(1) by (intro long_header_match) simp
  have "hunk_match ?h \<noteq> None" unfolding m by simp
  then have "step lim ?h s1 = hunk_or_content lim ?h s1" by (rule step_hunk_header)
  also have "\<dots> = Inl ValueError"
    unfolding hunk_or_content_def m
    using assms by (simp add: s1_def py_int_def py_int_or_1_def)
  finally have 2: "step lim ?h s1 = Inl ValueError" .
  show ?thesis
    unfolding parse_diff_def parse_result_def sp parse_lines.simps 1 using 2 by simp
qed

text \<open>
  Claim C4. The claim says that \<open>parse_diff\<close> returns for every input string. The empty
  string gives the empty result (\<open>parse_diff_empty\<close>), a hunk-header-shaped line that
  the pattern does not match changes nothing (\<open>malformed_header_skipped\<close>), and every
  input gives a result when the digit limit of \<open>int\<close> is switched off
  (\<open>parse_diff_total_unlimited\<close>) or no line is longer than 640 characters
  (\<open>parse_diff_total_short\<close>). Under the limit that CPython sets by default, a hunk
  header whose number has 4301 digits matches the pattern and the conversion raises
  \<open>ValueError\<close>, which nothing in \<open>parse_diff\<close> catches.
\<close>

theorem parse_diff_raises_on_long_number:
  "parse_diff 4300 (join_nl [''+++ b/x'', ''@@ -1 +'' @ replicate 4301 (CHR ''1'') @ '' @@'']) =
     Inl ValueError"
  by (rule long_header_raises) simp_all

end
